theory Spec2Isabelle
  imports Main "HOL-Library.Word"
begin

unbundle bit_operations_syntax

section \<open>qftool: the SPI flash programming engine\<close>

text \<open>
  A shallow embedding of \<^verbatim>\<open>qftool.go\<close>. A value of Go's \<^verbatim>\<open>int\<close> is an \<^typ>\<open>int\<close>,
  \<^verbatim>\<open>uint\<close> and slice lengths are \<^typ>\<open>nat\<close>, \<^verbatim>\<open>byte\<close> is \<^typ>\<open>8 word\<close> and \<^verbatim>\<open>uint32\<close>
  is \<^typ>\<open>32 word\<close>. The conversion \<^verbatim>\<open>byte(x)\<close> of an \<^verbatim>\<open>int\<close> is \<^term>\<open>word_of_int\<close>,
  \<^verbatim>\<open>&\<close> and \<^verbatim>\<open>>>\<close> on \<^verbatim>\<open>int\<close> are the two's-complement \<open>AND\<close> and \<^term>\<open>drop_bit\<close> of
  \<^typ>\<open>int\<close>. Progress output on the terminal (the \<^verbatim>\<open>ticker\<close> argument and its
  counters) is not modelled.
\<close>

type_synonym byte = "8 word"
type_synonym uint32 = "32 word"

text \<open>
  An \<^verbatim>\<open>int\<close> has 64 bits and its arithmetic wraps around: \<open>int64 x\<close> is the value the
  machine keeps of the exact result \<open>x\<close>. It is written out in \<^verbatim>\<open>Write\<close>, at the sum of
  the range check and where the loop advances the address, the operands being the
  caller's. The other sums and differences of \<^verbatim>\<open>Write\<close> are between numbers bounded by
  the length of a slice. Those of \<^verbatim>\<open>Read\<close> are left exact: what is proved of \<^verbatim>\<open>Read\<close>
  is about ranges inside the device, where nothing wraps.
\<close>

definition int64 :: "int \<Rightarrow> int" where
  "int64 x = (x + 2 ^ 63) mod 2 ^ 64 - 2 ^ 63"

definition romSize :: int where
  "romSize = 2 * 1024 * 1024"

subsection \<open>The transport and the session\<close>

text \<open>
  The serial port (\<^verbatim>\<open>term.Term\<close>) is an external collaborator: a state of type \<open>'t\<close>
  with the two operations the program calls. \<open>t_Write\<close> takes the bytes and returns
  whether \<^verbatim>\<open>err != nil\<close>; \<open>t_Read\<close> takes the length of the buffer and returns the
  bytes read with whether \<^verbatim>\<open>err != nil\<close>. As for every \<^verbatim>\<open>io.Reader\<close>, the number
  of bytes read is at most the length of the buffer: \<open>spi\<close> keeps that many.
\<close>

record 't transport =
  t_Write :: "'t \<Rightarrow> byte list \<Rightarrow> bool \<times> 't"
  t_Read :: "'t \<Rightarrow> nat \<Rightarrow> (byte list \<times> bool) \<times> 't"

text \<open>
  The session \<^verbatim>\<open>QF\<close>: the port, and as an observation of the run a log, oldest entry
  first: \<open>Tx p\<close> for every packet \<open>p\<close> handed to the port's \<^verbatim>\<open>Write\<close>, \<open>Rx r\<close> for
  every reply \<open>r\<close> that \<^verbatim>\<open>spi\<close> returns to its caller.
\<close>

datatype io = Tx "byte list" | Rx "byte list"

record 't QF =
  port :: 't
  log :: "io list"

text \<open>The command-line flags the engine reads (package-level variables in the source).\<close>

record flags =
  latency :: nat
  rd :: string
  wr :: string
  protect :: int
  skip :: int
  debug :: bool
  reset_flag :: bool
  layout :: bool
  check_flag :: bool
  disable :: bool
  sect :: string
  addrArg :: int
  limitArg :: int

text \<open>
  Errors are values. Each constructor of \<open>error\<close> stands for one \<^verbatim>\<open>fmt.Errorf\<close> or
  sentinel error of the source, with the values its message carries. \<open>Fatal\<close> is the
  end of the process in a \<^verbatim>\<open>log.Fatal\<close> (or, for \<open>Panic\<close>, in a run-time panic), which
  no caller can handle: it is passed up unchanged.
\<close>

datatype 'e fatal =
    FatalNotQF 'e
  | FatalCheckNeedsSection
  | FatalCheckFailed string 'e
  | FatalProtectedSection
  | FatalAddrLimit int int
  | FatalLimitRom int
  | FatalRead 'e
  | FatalSaveFile string
  | FatalReadFile string
  | FatalSkip int nat string
  | FatalBeyondLimit string int int
  | FatalWriteProtection int int
  | FatalWriteData 'e
  | FatalReadMeta string 'e
  | FatalDecodeMeta string
  | FatalMetaLength string nat
  | FatalWriteMeta string 'e
  | FatalNoSection string
  | Panic

datatype error =
    ProtocolLimit
  | WriteNotEnough
  | ReadIDsFailed nat
  | StatusFailed error
  | ErrTimedOut
  | ErrWriteEnableFailed
  | ReadOutside
  | NotSectorAligned int
  | WriteOutside
  | EraseEnableFailed int error
  | EraseFailed int error
  | SectorEraseError error
  | ProgramEnableFailed int
  | ResetEnableFailed
  | ResetFailed
  | BadMID byte
  | BadDID byte byte
  | OpenFailed
  | InvalidSize string uint32 int
  | ReadSectionFailed string uint32 error
  | CrcMismatch string uint32 uint32
  | Fatal "error fatal"

text \<open>
  A call returns \<open>None\<close> when it never returns, and otherwise its result (\<open>Inl\<close> the
  error) with the session it leaves behind.
\<close>

type_synonym ('a, 't) outcome = "((error + 'a) \<times> 't QF) option"

subsection \<open>\<^verbatim>\<open>spi\<close>: one command of the bootloader protocol\<close>

definition header :: "nat \<Rightarrow> nat \<Rightarrow> byte list" where
  "header send expect =
     [1, of_nat (send AND 0xff), of_nat (drop_bit 8 send AND 0xff),
      of_nat (expect AND 0xff), of_nat (drop_bit 8 expect AND 0xff)]"

text \<open>
  The loop \<^verbatim>\<open>for uint(consumed) != expect\<close>: \<open>resp\<close> is the part of the buffer filled
  so far, so \<^verbatim>\<open>consumed\<close> is its length. A port that keeps returning no byte and no
  error keeps the loop running for ever.
\<close>

partial_function (option) spi_read ::
  "'t transport \<Rightarrow> nat \<Rightarrow> byte list \<Rightarrow> 't QF \<Rightarrow> (byte list, 't) outcome" where
  "spi_read tr expect resp a =
     (if length resp = expect then Some (Inr resp, a\<lparr>log := log a @ [Rx resp]\<rparr>)
      else
        (let r = t_Read tr (port a) (expect - length resp);
             got = take (expect - length resp) (fst (fst r));
             a' = a\<lparr>port := snd r\<rparr>
         in if got = [] \<and> snd (fst r) then Some (Inl (ReadIDsFailed (length resp)), a')
            else spi_read tr expect (resp @ got) a'))"

definition spi :: "'t transport \<Rightarrow> byte list \<Rightarrow> nat \<Rightarrow> 't QF \<Rightarrow> (byte list, 't) outcome" where
  "spi tr cmds expect a =
     (if expect > 16 \<or> length cmds > 16 then Some (Inl ProtocolLimit, a)
      else
        (let pkt = header (length cmds) expect @ cmds;
             w = t_Write tr (port a) pkt;
             a' = a\<lparr>port := snd w, log := log a @ [Tx pkt]\<rparr>
         in if fst w then Some (Inl WriteNotEnough, a')
            else spi_read tr expect [] a'))"

subsection \<open>Sequencing\<close>

text \<open>
  \<open>seq m wrap f\<close> is the source's \<^verbatim>\<open>if x, err := m; err != nil { return wrap(err) }\<close>
  followed by \<open>f x\<close>.
\<close>

definition seq ::
  "('a, 't) outcome \<Rightarrow> (error \<Rightarrow> error) \<Rightarrow> ('a \<Rightarrow> 't QF \<Rightarrow> ('b, 't) outcome) \<Rightarrow> ('b, 't) outcome" where
  "seq m wrap f =
     (case m of
        None \<Rightarrow> None
      | Some (Inl e, a) \<Rightarrow> Some (Inl (wrap e), a)
      | Some (Inr x, a) \<Rightarrow> f x a)"

lemma seq_cong [fundef_cong]:
  "m = m' \<Longrightarrow> wrap = wrap' \<Longrightarrow> (\<And>x a. m' = Some (Inr x, a) \<Longrightarrow> f x a = f' x a)
   \<Longrightarrow> seq m wrap f = seq m' wrap' f'"
  by (auto simp: seq_def split: option.splits sum.splits prod.splits)

subsection \<open>\<^verbatim>\<open>await\<close> and \<^verbatim>\<open>writeEnable\<close>\<close>

text \<open>
  Time is counted in polls: a duration is the number of 10 ms sleeps that end before
  the deadline \<^verbatim>\<open>until\<close> fires. The status register is always read once before the
  deadline is looked at.
\<close>

fun await_poll :: "'t transport \<Rightarrow> byte \<Rightarrow> byte \<Rightarrow> nat \<Rightarrow> 't QF \<Rightarrow> (unit, 't) outcome" where
  "await_poll tr msk desired 0 a =
     seq (spi tr [0x05] 1 a) StatusFailed
       (\<lambda>b a. if (b ! 0) AND msk = desired then Some (Inr (), a)
              else Some (Inl ErrTimedOut, a))"
| "await_poll tr msk desired (Suc k) a =
     seq (spi tr [0x05] 1 a) StatusFailed
       (\<lambda>b a. if (b ! 0) AND msk = desired then Some (Inr (), a)
              else await_poll tr msk desired k a)"

definition await ::
  "'t transport \<Rightarrow> flags \<Rightarrow> byte \<Rightarrow> byte \<Rightarrow> nat \<Rightarrow> 't QF \<Rightarrow> (unit, 't) outcome" where
  "await tr fl msk desired timeout a =
     await_poll tr msk desired (if timeout = 0 then latency fl else timeout) a"

definition flashWIP :: byte where
  "flashWIP = push_bit 0 1"

definition writeEnable :: "'t transport \<Rightarrow> 't QF \<Rightarrow> (unit, 't) outcome" where
  "writeEnable tr a = seq (spi tr [0x06] 0 a) (\<lambda>_. ErrWriteEnableFailed) (\<lambda>_ a. Some (Inr (), a))"

subsection \<open>\<^verbatim>\<open>Read\<close>\<close>

definition addr_bytes :: "int \<Rightarrow> byte list" where
  "addr_bytes address =
     [word_of_int (drop_bit 16 address AND 0xFF),
      word_of_int (drop_bit 8 address AND 0xFF),
      word_of_int (address AND 0xFF)]"

definition read_delta :: "int \<Rightarrow> int \<Rightarrow> int" where
  "read_delta address n =
     (let offset = address AND 15; delta = 16 - offset
      in if delta > n then n else delta)"

lemma and_15_bounds: "0 \<le> (x::int) AND 15 \<and> x AND 15 \<le> 15"
  by (simp add: AND_upper2)

lemma read_delta_pos: "0 < n \<Longrightarrow> 0 < read_delta address n"
  using and_15_bounds [of address] by (simp add: read_delta_def Let_def)

function Read_loop ::
  "'t transport \<Rightarrow> int \<Rightarrow> int \<Rightarrow> byte list \<Rightarrow> 't QF \<Rightarrow> (byte list, 't) outcome" where
  "Read_loop tr address n result a =
     (if n > 0 then
        (let cmd = 0x0B # addr_bytes address @ [0];
             delta = read_delta address n
         in seq (spi tr cmd (nat delta) a) id
              (\<lambda>d a. Read_loop tr (address + delta) (n - delta) (result @ d) a))
      else Some (Inr result, a))"
  by pat_completeness auto
termination
  by (relation "measure (\<lambda>(tr, address, n, result, a). nat n)") (auto simp: read_delta_pos)

declare Read_loop.simps [simp del]

definition Read :: "'t transport \<Rightarrow> int \<Rightarrow> int \<Rightarrow> 't QF \<Rightarrow> (byte list, 't) outcome" where
  "Read tr address n a =
     (if address < 0 \<or> address + n > romSize then Some (Inl ReadOutside, a)
      else Read_loop tr address n [] a)"

subsection \<open>\<^verbatim>\<open>Write\<close>\<close>

text \<open>Go's \<^verbatim>\<open>copy(dst, src)\<close>: the first \<open>min (len dst) (len src)\<close> elements are replaced.\<close>

definition copy :: "'a list \<Rightarrow> 'a list \<Rightarrow> 'a list" where
  "copy dst src = (let m = min (length dst) (length src) in take m src @ drop m dst)"

text \<open>
  The padding at the start of \<^verbatim>\<open>Write\<close>: \<^verbatim>\<open>make\<close> gives a zeroed slice, the loop
  stores \<open>0xff\<close> at the indices \<open>len(data) + i\<close> (all within the slice), and the data is
  copied to its front.
\<close>

definition pad :: "byte list \<Rightarrow> byte list" where
  "pad data =
     (if int (length data) AND 0xfff \<noteq> 0 then
        (let extend = nat (0x1000 - (int (length data) AND 0xfff));
             actual = replicate (length data + extend) 0;
             actual = fold (\<lambda>i act. act[length data + i := 0xff]) [0..<extend] actual
         in copy actual data)
      else data)"

definition write_delta :: "int \<Rightarrow> int" where
  "write_delta n = (let delta = n in if delta > 8 then 8 else delta)"

text \<open>
  The body of the loop of \<^verbatim>\<open>Write\<close> is two blocks, each a definition here. The first
  runs when the address is sector aligned: write-enable, sector erase, wait.
\<close>

definition erase_sector :: "'t transport \<Rightarrow> flags \<Rightarrow> int \<Rightarrow> 't QF \<Rightarrow> (unit, 't) outcome" where
  "erase_sector tr fl address a =
     (let cmd = 0x20 # addr_bytes address
      in seq (writeEnable tr a) (EraseEnableFailed address) (\<lambda>_ a.
         seq (spi tr cmd 0 a) (EraseFailed address) (\<lambda>_ a.
         seq (await tr fl flashWIP 0 (latency fl) a) SectorEraseError (\<lambda>_ a.
         Some (Inr (), a)))))"

text \<open>
  The second block programs the slice \<^verbatim>\<open>data[offset:offset+delta]\<close>, here \<open>payload\<close>:
  write-enable, page program, wait.
\<close>

definition program_page ::
  "'t transport \<Rightarrow> flags \<Rightarrow> int \<Rightarrow> byte list \<Rightarrow> 't QF \<Rightarrow> (unit, 't) outcome" where
  "program_page tr fl address payload a =
     (let cmd = 0x02 # addr_bytes address
      in seq (writeEnable tr a) (\<lambda>_. ProgramEnableFailed address) (\<lambda>_ a.
         seq (spi tr (cmd @ payload) 0 a) id (\<lambda>_ a.
         seq (await tr fl flashWIP 0 (latency fl) a) SectorEraseError (\<lambda>_ a.
         Some (Inr (), a)))))"

text \<open>
  The loop \<^verbatim>\<open>for n > 0\<close> of \<^verbatim>\<open>Write\<close>. The slice \<^verbatim>\<open>data[offset:offset+delta]\<close> is in
  range whenever \<open>offset + n = len(data)\<close>, which holds at every iteration.
\<close>

function Write_loop ::
  "'t transport \<Rightarrow> flags \<Rightarrow> int \<Rightarrow> byte list \<Rightarrow> int \<Rightarrow> int \<Rightarrow> 't QF \<Rightarrow> (unit, 't) outcome" where
  "Write_loop tr fl address data offset n a =
     (if n > 0 then
        seq (if address AND 0xfff = 0 then erase_sector tr fl address a else Some (Inr (), a)) id
          (\<lambda>_ a.
            (let delta = write_delta n
             in seq (program_page tr fl address (take (nat delta) (drop (nat offset) data)) a) id
                  (\<lambda>_ a. Write_loop tr fl (int64 (address + delta)) data (offset + delta)
                           (n - delta) a)))
      else Some (Inr (), a))"
  by pat_completeness auto
termination
  by (relation "measure (\<lambda>(tr, fl, address, data, offset, n, a). nat n)")
     (auto simp: write_delta_def)

declare Write_loop.simps [simp del]

definition Write :: "'t transport \<Rightarrow> flags \<Rightarrow> int \<Rightarrow> byte list \<Rightarrow> 't QF \<Rightarrow> (unit, 't) outcome" where
  "Write tr fl address data a =
     (if address AND 0xfff \<noteq> 0 then Some (Inl (NotSectorAligned address), a)
      else
        (let data = pad data;
             n = int (length data)
         in if address < 0 \<or> int64 (address + n) > romSize then Some (Inl WriteOutside, a)
            else Write_loop tr fl address data 0 n a))"

subsection \<open>Metadata\<close>

definition PresentWritten :: byte where "PresentWritten = 0x03"
definition PresentEmpty :: byte where "PresentEmpty = 0xff"

definition TypeM4 :: byte where "TypeM4 = 1"
definition TypeFFE :: byte where "TypeFFE = 2"
definition TypeFPGA :: byte where "TypeFPGA = 3"
definition TypeFS :: byte where "TypeFS = 4"

definition SubTypeBoot :: byte where "SubTypeBoot = 1"
definition SubTypeApp :: byte where "SubTypeApp = 2"
definition SubTypeOTA :: byte where "SubTypeOTA = 3"
definition SubTypeFSFat :: byte where "SubTypeFSFat = 0x20"

record MetaData =
  CRC :: uint32
  Size :: uint32
  Written :: byte
  Image :: byte
  Purpose :: byte
  Reserved :: byte

record Section =
  name :: string
  base :: int
  limit :: int
  meta :: int
  written :: byte
  image :: byte
  purpose :: byte

definition sections :: "Section list" where
  "sections =
    [\<lparr>name = ''bootloader'', base = 0x00000, limit = 0x10000, meta = 0x1f000,
      written = 0, image = TypeM4, purpose = SubTypeBoot\<rparr>,
     \<lparr>name = ''bootfpga'', base = 0x20000, limit = 0x40000, meta = 0x10000,
      written = 0, image = TypeFPGA, purpose = SubTypeBoot\<rparr>,
     \<lparr>name = ''appfpga'', base = 0x40000, limit = 0x60000, meta = 0x11000,
      written = 0, image = TypeFPGA, purpose = SubTypeApp\<rparr>,
     \<lparr>name = ''appffe'', base = 0x60000, limit = 0x80000, meta = 0x12000,
      written = 0, image = TypeFFE, purpose = SubTypeApp\<rparr>,
     \<lparr>name = ''app'', base = 0x80000, limit = 0xee000, meta = 0x13000,
      written = 0, image = TypeM4, purpose = SubTypeApp\<rparr>]"

text \<open>
  \<^verbatim>\<open>encoding/binary\<close> with \<^verbatim>\<open>binary.LittleEndian\<close> on the struct \<^verbatim>\<open>MetaData\<close>: the
  fields in their order of declaration, a \<^verbatim>\<open>uint32\<close> as four bytes with the least
  significant first, a \<^verbatim>\<open>uint8\<close> as itself. \<^verbatim>\<open>binary.Size\<close> of the struct is 12.
  \<^verbatim>\<open>binary.Write\<close> cannot fail on a struct of fixed-size fields; \<^verbatim>\<open>binary.Read\<close>
  fails exactly when the reader holds fewer bytes than the struct needs.
\<close>

definition le32 :: "uint32 \<Rightarrow> byte list" where
  "le32 w = [ucast w, ucast (drop_bit 8 w), ucast (drop_bit 16 w), ucast (drop_bit 24 w)]"

definition un_le32 :: "byte list \<Rightarrow> uint32" where
  "un_le32 b =
     ucast (b ! 0) OR push_bit 8 (ucast (b ! 1)) OR push_bit 16 (ucast (b ! 2))
       OR push_bit 24 (ucast (b ! 3))"

definition binary_Size :: int where
  "binary_Size = 12"

definition binary_Write :: "MetaData \<Rightarrow> byte list" where
  "binary_Write m = le32 (CRC m) @ le32 (Size m) @ [Written m, Image m, Purpose m, Reserved m]"

definition binary_Read :: "byte list \<Rightarrow> MetaData option" where
  "binary_Read b =
     (if length b < 12 then None
      else Some \<lparr>CRC = un_le32 (take 4 b), Size = un_le32 (take 4 (drop 4 b)),
                 Written = b ! 8, Image = b ! 9, Purpose = b ! 10, Reserved = b ! 11\<rparr>)"

definition readMeta :: "'t transport \<Rightarrow> Section \<Rightarrow> 't QF \<Rightarrow> (MetaData, 't) outcome" where
  "readMeta tr sec a =
     seq (Read tr (meta sec) binary_Size a) (\<lambda>e. Fatal (FatalReadMeta (name sec) e)) (\<lambda>m a.
       case binary_Read m of
         None \<Rightarrow> Some (Inl (Fatal (FatalDecodeMeta (name sec))), a)
       | Some decoded \<Rightarrow> Some (Inr decoded, a))"

definition writeMeta ::
  "'t transport \<Rightarrow> flags \<Rightarrow> Section \<Rightarrow> MetaData \<Rightarrow> 't QF \<Rightarrow> (unit, 't) outcome" where
  "writeMeta tr fl sec m a =
     (let buf = binary_Write m
      in if length buf \<noteq> 12 then Some (Inl (Fatal (FatalMetaLength (name sec) (length buf))), a)
         else seq (Write tr fl (meta sec) buf a) (\<lambda>e. Fatal (FatalWriteMeta (name sec) e))
                (\<lambda>_ a. Some (Inr (), a)))"

text \<open>\<^verbatim>\<open>secByName\<close>: the first section of that name, or the program exits.\<close>

fun secByName_in :: "Section list \<Rightarrow> string \<Rightarrow> error + Section" where
  "secByName_in [] nm = Inl (Fatal (FatalNoSection nm))"
| "secByName_in (sec # secs) nm = (if name sec = nm then Inr sec else secByName_in secs nm)"

definition secByName :: "string \<Rightarrow> error + Section" where
  "secByName nm = secByName_in sections nm"

subsection \<open>\<^verbatim>\<open>validate\<close>\<close>

text \<open>
  The checksum \<^verbatim>\<open>xcrc32.NewCRC32\<close> belongs to another module: it is a parameter
  \<open>crc32\<close>. The conversion \<^verbatim>\<open>int(meta.Size)\<close> is that of a 64-bit \<^verbatim>\<open>int\<close>.
\<close>

definition validate ::
  "'t transport \<Rightarrow> (byte list \<Rightarrow> uint32) \<Rightarrow> string \<Rightarrow> 't QF \<Rightarrow> (unit, 't) outcome" where
  "validate tr crc32 nm a =
     (case secByName nm of
        Inl e \<Rightarrow> Some (Inl e, a)
      | Inr sec \<Rightarrow>
          seq (readMeta tr sec a) id (\<lambda>m a.
            (let max = limit sec - base sec
             in if Size m > word_of_int max
                then Some (Inl (InvalidSize (name sec) (Size m) max), a)
                else seq (Read tr (base sec) (uint (Size m)) a)
                       (ReadSectionFailed (name sec) (Size m))
                       (\<lambda>d a. (let crc = crc32 d
                                in if crc = CRC m then Some (Inr (), a)
                                   else Some (Inl (CrcMismatch (name sec) crc (CRC m)), a))))))"

subsection \<open>\<^verbatim>\<open>reset\<close> and \<^verbatim>\<open>NewQF\<close>\<close>

definition second :: nat where
  "second = 100"

definition reset :: "'t transport \<Rightarrow> flags \<Rightarrow> 't QF \<Rightarrow> (unit, 't) outcome" where
  "reset tr fl a =
     seq (if reset_flag fl
          then seq (spi tr [0x66] 0 a) (\<lambda>_. ResetEnableFailed) (\<lambda>_ a.
               seq (spi tr [0x99] 0 a) (\<lambda>_. ResetFailed) (\<lambda>_ a. Some (Inr (), a)))
          else Some (Inr (), a)) id (\<lambda>_ a.
     seq (spi tr [0xAB] 1 a) id (\<lambda>_ a.
     seq (spi tr [0x9F] 3 a) id (\<lambda>b a.
       if b ! 0 \<noteq> 0xC8 then Some (Inl (BadMID (b ! 0)), a)
       else if b ! 1 \<noteq> 0x40 \<or> b ! 2 \<noteq> 0x15 then Some (Inl (BadDID (b ! 1) (b ! 2)), a)
       else seq (await tr fl 0 0 second a) StatusFailed (\<lambda>_ a.
            (case Read tr 0 16 a of
               None \<Rightarrow> None
             | Some (_, a) \<Rightarrow> Some (Inr (), a))))))"

text \<open>
  \<open>opened\<close> is the result of \<^verbatim>\<open>term.Open\<close>: the port, or \<open>None\<close> for an error. When
  \<^verbatim>\<open>reset\<close> fails the session is closed and \<^verbatim>\<open>nil\<close> is returned with the error.
\<close>

definition NewQF :: "'t transport \<Rightarrow> flags \<Rightarrow> 't option \<Rightarrow> (error + 't QF) option" where
  "NewQF tr fl opened =
     (case opened of
        None \<Rightarrow> Some (Inl OpenFailed)
      | Some t \<Rightarrow>
          (case reset tr fl \<lparr>port = t, log = []\<rparr> of
             None \<Rightarrow> None
           | Some (Inl e, _) \<Rightarrow> Some (Inl e)
           | Some (Inr _, a) \<Rightarrow> Some (Inr a)))"

subsection \<open>\<^verbatim>\<open>main\<close>\<close>

text \<open>
  The files \<^verbatim>\<open>main\<close> touches: \<open>ReadFile\<close> gives the content of a file or \<open>None\<close> for
  an error, \<open>WriteFile\<close> tells whether writing fails. What a run that ends normally
  leaves outside the flash are its \<open>outputs\<close>.
\<close>

record files =
  ReadFile :: "string \<Rightarrow> byte list option"
  WriteFile :: "string \<Rightarrow> byte list \<Rightarrow> bool"

datatype outputs = Done | Saved string "byte list" | Printed int "byte list"

fun displayLayout_in :: "'t transport \<Rightarrow> Section list \<Rightarrow> 't QF \<Rightarrow> (unit, 't) outcome" where
  "displayLayout_in tr [] a = Some (Inr (), a)"
| "displayLayout_in tr (sec # secs) a =
     seq (readMeta tr sec a) id (\<lambda>_ a. displayLayout_in tr secs a)"

definition displayLayout :: "'t transport \<Rightarrow> 't QF \<Rightarrow> (unit, 't) outcome" where
  "displayLayout tr a = displayLayout_in tr sections a"

text \<open>The branch \<^verbatim>\<open>if *rd != ""\<close>, which ends in \<^verbatim>\<open>os.Exit(0)\<close>.\<close>

definition main_read ::
  "'t transport \<Rightarrow> flags \<Rightarrow> files \<Rightarrow> int \<Rightarrow> int \<Rightarrow> 't QF \<Rightarrow> (outputs, 't) outcome" where
  "main_read tr fl fs addr lim a =
     seq (if sect fl \<noteq> [] then
            (case secByName (sect fl) of
               Inl e \<Rightarrow> Some (Inl e, a)
             | Inr sec \<Rightarrow>
                 seq (readMeta tr sec a) id (\<lambda>m a.
                   (let sLimit = addr + uint (Size m)
                    in Some (Inr (if sLimit < lim then sLimit else lim), a))))
          else Some (Inr lim, a)) id (\<lambda>lim a.
     seq (Read tr addr (lim - addr) a) (\<lambda>e. Fatal (FatalRead e)) (\<lambda>d a.
       if rd fl \<noteq> ''-'' then
         (if WriteFile fs (rd fl) d then Some (Inl (Fatal (FatalSaveFile (rd fl))), a)
          else Some (Inr (Saved (rd fl) d), a))
       else Some (Inr (Printed addr d), a)))"

text \<open>The branch \<^verbatim>\<open>if *wr != ""\<close>. A negative \<^verbatim>\<open>--skip\<close> makes the slice expression panic.\<close>

definition main_write ::
  "'t transport \<Rightarrow> flags \<Rightarrow> files \<Rightarrow> (byte list \<Rightarrow> uint32) \<Rightarrow> int \<Rightarrow> int \<Rightarrow> int \<Rightarrow> 't QF
   \<Rightarrow> (outputs, 't) outcome" where
  "main_write tr fl fs crc32 addr lim mta a =
     (case ReadFile fs (wr fl) of
        None \<Rightarrow> Some (Inl (Fatal (FatalReadFile (wr fl))), a)
      | Some d \<Rightarrow>
          if skip fl > int (length d)
          then Some (Inl (Fatal (FatalSkip (skip fl) (length d) (wr fl))), a)
          else if skip fl < 0 then Some (Inl (Fatal Panic), a)
          else
            (let d = (if skip fl \<noteq> 0 then drop (nat (skip fl)) d else d)
             in if int (length d) + addr > lim
                then Some (Inl (Fatal (FatalBeyondLimit (wr fl) lim
                                         (int (length d) - (lim - addr)))), a)
                else if addr < protect fl
                then Some (Inl (Fatal (FatalWriteProtection (protect fl) addr)), a)
                else
                  seq (Write tr fl addr d a) (\<lambda>e. Fatal (FatalWriteData e)) (\<lambda>_ a.
                    if mta \<noteq> 0 then
                      (case secByName (sect fl) of
                         Inl e \<Rightarrow> Some (Inl e, a)
                       | Inr sec \<Rightarrow>
                           seq (writeMeta tr fl sec
                                  \<lparr>CRC = crc32 d, Size = of_nat (length d),
                                   Written = PresentWritten, Image = image sec,
                                   Purpose = purpose sec, Reserved = 0xff\<rparr> a) id
                             (\<lambda>_ a. Some (Inr Done, a)))
                    else Some (Inr Done, a))))"

text \<open>
  \<^verbatim>\<open>main\<close> from the point where the session is open. The three results of the section
  lookup are \<^verbatim>\<open>addr\<close>, \<^verbatim>\<open>limit\<close> (here \<open>lim\<close>) and \<^verbatim>\<open>meta\<close>.
\<close>

definition main_session ::
  "'t transport \<Rightarrow> flags \<Rightarrow> files \<Rightarrow> (byte list \<Rightarrow> uint32) \<Rightarrow> 't QF \<Rightarrow> (outputs, 't) outcome" where
  "main_session tr fl fs crc32 a =
     (if layout fl then seq (displayLayout tr a) id (\<lambda>_ a. Some (Inr Done, a))
      else if check_flag fl then
        (if sect fl = [] then Some (Inl (Fatal FatalCheckNeedsSection), a)
         else
           (case validate tr crc32 (sect fl) a of
              None \<Rightarrow> None
            | Some (Inr _, a) \<Rightarrow> Some (Inr Done, a)
            | Some (Inl (Fatal f), a) \<Rightarrow> Some (Inl (Fatal f), a)
            | Some (Inl e, a) \<Rightarrow> Some (Inl (Fatal (FatalCheckFailed (sect fl) e)), a)))
      else
        (case (if sect fl \<noteq> [] then map_sum id Some (secByName (sect fl)) else Inr None) of
           Inl e \<Rightarrow> Some (Inl e, a)
         | Inr found \<Rightarrow>
             (let addr = (case found of Some sec \<Rightarrow> base sec | None \<Rightarrow> addrArg fl);
                  lim = (case found of Some sec \<Rightarrow> limit sec | None \<Rightarrow> limitArg fl);
                  mta = (case found of Some sec \<Rightarrow> meta sec | None \<Rightarrow> 0)
              in case (if disable fl then found else None) of
                   Some sec \<Rightarrow>
                     if protect fl > addr then Some (Inl (Fatal FatalProtectedSection), a)
                     else
                       seq (writeMeta tr fl sec
                              \<lparr>CRC = NOT 0, Size = NOT 0, Written = PresentEmpty,
                               Image = image sec, Purpose = purpose sec, Reserved = 0xff\<rparr> a) id
                         (\<lambda>_ a. Some (Inr Done, a))
                 | None \<Rightarrow>
                     if addr \<ge> lim then Some (Inl (Fatal (FatalAddrLimit addr lim)), a)
                     else if lim > romSize then Some (Inl (Fatal (FatalLimitRom lim)), a)
                     else if rd fl \<noteq> [] then main_read tr fl fs addr lim a
                     else if wr fl \<noteq> [] then main_write tr fl fs crc32 addr lim mta a
                     else Some (Inr Done, a))))"

text \<open>
  The whole program: its result and the log of the session, which is empty when no
  session could be opened.
\<close>

definition main ::
  "'t transport \<Rightarrow> flags \<Rightarrow> files \<Rightarrow> (byte list \<Rightarrow> uint32) \<Rightarrow> 't option
   \<Rightarrow> ((error + outputs) \<times> io list) option" where
  "main tr fl fs crc32 opened =
     (case NewQF tr fl opened of
        None \<Rightarrow> None
      | Some (Inl e) \<Rightarrow> Some (Inl (Fatal (FatalNotQF e)), [])
      | Some (Inr qf) \<Rightarrow>
          (case main_session tr fl fs crc32 qf of
             None \<Rightarrow> None
           | Some (r, a) \<Rightarrow> Some (r, log a)))"

section \<open>Observations and test doubles\<close>

text \<open>The packet that \<^verbatim>\<open>spi\<close> hands to the port for a command and a reply length.\<close>

definition packet :: "byte list \<Rightarrow> nat \<Rightarrow> byte list" where
  "packet cmds expect = header (length cmds) expect @ cmds"

text \<open>
  Ports to run the program on. \<open>steady b\<close> takes every packet and answers every read
  with as many bytes \<open>b\<close> as the buffer holds; \<open>quiet\<close> does so with zero bytes.
  \<open>chip ident refused\<close> remembers the command of the last packet: it answers the JEDEC
  request \<open>0x9F\<close> with \<open>ident\<close> and every other read with zero bytes, and its
  \<^verbatim>\<open>Write\<close> reports an error for the packets whose opcode is in \<open>refused\<close>.
\<close>

definition steady :: "byte \<Rightarrow> unit transport" where
  "steady b = \<lparr>t_Write = (\<lambda>t p. (False, t)), t_Read = (\<lambda>t n. ((replicate n b, False), t))\<rparr>"

definition quiet :: "unit transport" where
  "quiet = \<lparr>t_Write = (\<lambda>t p. (False, t)), t_Read = (\<lambda>t n. ((replicate n 0, False), t))\<rparr>"

definition chip :: "byte list \<Rightarrow> byte list \<Rightarrow> byte list transport" where
  "chip ident refused =
     \<lparr>t_Write = (\<lambda>t p. (p ! 5 \<in> set refused, drop 5 p)),
      t_Read = (\<lambda>t n. ((take n (if t = [0x9F] then ident else replicate n 0), False), t))\<rparr>"

text \<open>
  The flags at their default values, a file system in which every file is empty, and
  the last section of the catalog.
\<close>

definition empty_files :: files where
  "empty_files = \<lparr>ReadFile = (\<lambda>f. Some []), WriteFile = (\<lambda>f d. False)\<rparr>"

definition app :: Section where
  "app = \<lparr>name = ''app'', base = 0x80000, limit = 0xee000, meta = 0x13000,
      written = 0, image = TypeM4, purpose = SubTypeApp\<rparr>"

definition default_flags :: flags where
  "default_flags =
     \<lparr>latency = 100, rd = [], wr = [], protect = 0x40000, skip = 0, debug = False,
      reset_flag = False, layout = False, check_flag = False, disable = False, sect = [],
      addrArg = 0x80000, limitArg = romSize\<rparr>"

text \<open>
  Two properties of a port. A reliable port takes every packet and delivers at least
  one byte to every read that asks for some. An idle port answers with a first byte in
  which the write-in-progress bit is clear.
\<close>

definition reliable :: "'t transport \<Rightarrow> bool" where
  "reliable tr \<longleftrightarrow>
     (\<forall>t p. \<not> fst (t_Write tr t p)) \<and> (\<forall>t n. 0 < n \<longrightarrow> fst (fst (t_Read tr t n)) \<noteq> [])"

definition idle :: "'t transport \<Rightarrow> bool" where
  "idle tr \<longleftrightarrow> (\<forall>t n. 0 < n \<longrightarrow> hd (fst (fst (t_Read tr t n))) AND flashWIP = 0)"

subsection \<open>What the log of a write must look like\<close>

text \<open>
  The status poll of \<^verbatim>\<open>await\<close>, and the log of a wait that saw the status bytes \<open>ss\<close>.
\<close>

definition poll :: "byte list" where
  "poll = packet [0x05] 1"

definition wait_io :: "byte list \<Rightarrow> io list" where
  "wait_io ss = concat (map (\<lambda>s. [Tx poll, Rx [s]]) ss)"

text \<open>
  The order of commands that the specification asks of the writer, as a recogniser of
  logs. Each recogniser reads its part of the log and hands the rest to \<open>k\<close>. With
  \<open>complete\<close> the log must hold the whole run; without it the log may stop early, after
  any packet or reply, as the log of a run that failed does.

  \<open>exchange\<close>: the packet \<open>p\<close> and its empty reply. \<open>waited\<close>: status polls, each
  answered by one byte, up to the first answer with the write-in-progress bit clear.
\<close>

fun exchange :: "bool \<Rightarrow> byte list \<Rightarrow> (io list \<Rightarrow> bool) \<Rightarrow> io list \<Rightarrow> bool" where
  "exchange complete p k [] = (\<not> complete)"
| "exchange complete p k [e] = (\<not> complete \<and> e = Tx p)"
| "exchange complete p k (e # e' # lg) = (e = Tx p \<and> e' = Rx [] \<and> k lg)"

fun waited :: "bool \<Rightarrow> (io list \<Rightarrow> bool) \<Rightarrow> io list \<Rightarrow> bool" where
  "waited complete k [] = (\<not> complete)"
| "waited complete k [e] = (\<not> complete \<and> e = Tx poll)"
| "waited complete k (e # Rx [s] # lg) =
     (e = Tx poll \<and> (if s AND flashWIP = 0 then k lg else waited complete k lg))"
| "waited complete k (e # e' # lg) = False"

text \<open>
  \<open>erase_order\<close>: write-enable, sector erase at the address, completed wait.
  \<open>program_order\<close>: write-enable, page program of the chunk at the address, completed
  wait. \<open>write_order\<close>: the data in chunks of at most 8 bytes at consecutive addresses,
  each chunk programmed, and erased first where its address is a multiple of 4096.
\<close>

definition erase_order :: "bool \<Rightarrow> int \<Rightarrow> (io list \<Rightarrow> bool) \<Rightarrow> io list \<Rightarrow> bool" where
  "erase_order complete address k =
     exchange complete (packet [0x06] 0)
       (exchange complete (packet (0x20 # addr_bytes address) 0) (waited complete k))"

definition program_order ::
  "bool \<Rightarrow> int \<Rightarrow> byte list \<Rightarrow> (io list \<Rightarrow> bool) \<Rightarrow> io list \<Rightarrow> bool" where
  "program_order complete address chunk k =
     exchange complete (packet [0x06] 0)
       (exchange complete (packet (0x02 # addr_bytes address @ chunk) 0) (waited complete k))"

function write_order :: "bool \<Rightarrow> int \<Rightarrow> byte list \<Rightarrow> io list \<Rightarrow> bool" where
  "write_order complete address data lg =
     (if data = [] then lg = []
      else
        (let chunk = take 8 data;
             program = program_order complete address chunk
               (\<lambda>lg. write_order complete (address + int (length chunk)) (drop 8 data) lg)
         in if address mod 4096 = 0 then erase_order complete address program lg
            else program lg))"
  by pat_completeness auto
termination
  by (relation "measure (\<lambda>(complete, address, data, lg). length data)") auto

declare write_order.simps [simp del]

text \<open>
  The flash cells that the page-program packets of a log address, in the order of the
  log: the packet's three address bytes give the first cell, each payload byte goes to
  the next one. \<open>cells address data\<close> is \<open>data\<close> laid out from \<open>address\<close> upwards.
\<close>

definition addr_of :: "byte list \<Rightarrow> int" where
  "addr_of b = uint (b ! 0) * 65536 + uint (b ! 1) * 256 + uint (b ! 2)"

definition cells :: "int \<Rightarrow> byte list \<Rightarrow> (int \<times> byte) list" where
  "cells address data = zip (map (\<lambda>i. address + int i) [0..<length data]) data"

fun programmed :: "io list \<Rightarrow> (int \<times> byte) list" where
  "programmed [] = []"
| "programmed (Rx r # lg) = programmed lg"
| "programmed (Tx p # lg) =
     (if 9 \<le> length p \<and> p ! 5 = 0x02 then cells (addr_of (take 3 (drop 6 p))) (drop 9 p) else [])
       @ programmed lg"

definition busy :: "byte list \<Rightarrow> bool" where
  "busy ss = (\<forall>s \<in> set ss. s AND flashWIP \<noteq> 0)"

text \<open>The log of the optional hardware reset at the start of \<^verbatim>\<open>reset\<close>.\<close>

definition prelude :: "flags \<Rightarrow> io list" where
  "prelude fl =
     (if reset_flag fl then [Tx (packet [0x66] 0), Rx [], Tx (packet [0x99] 0), Rx []] else [])"

subsection \<open>What the log of a read must look like\<close>

text \<open>
  The requests the specification asks of the reader, as pairs of address and length:
  \<open>delta = min (16 - address mod 16) remaining\<close>. \<open>exchanges plan ds\<close> is the log of the
  requests of \<open>plan\<close> answered by the replies \<open>ds\<close>, as far as there are replies.
\<close>

function read_plan :: "int \<Rightarrow> int \<Rightarrow> (int \<times> int) list" where
  "read_plan address remaining =
     (if remaining \<le> 0 then []
      else
        (let delta = min (16 - address mod 16) remaining
         in (address, delta) # read_plan (address + delta) (remaining - delta)))"
  by pat_completeness auto
termination
  by (relation "measure (\<lambda>(address, remaining). nat remaining)") (auto simp: min_def)

declare read_plan.simps [simp del]

definition read_packet :: "int \<times> int \<Rightarrow> byte list" where
  "read_packet req = packet (0x0B # addr_bytes (fst req) @ [0]) (nat (snd req))"

definition exchanges :: "(int \<times> int) list \<Rightarrow> byte list list \<Rightarrow> io list" where
  "exchanges plan ds = concat (map (\<lambda>(req, d). [Tx (read_packet req), Rx d]) (zip plan ds))"

subsection \<open>What a run that ends with a metadata write returns\<close>

text \<open>
  The result of \<^verbatim>\<open>main\<close> and the log of the session when the last thing it does is
  \<^verbatim>\<open>writeMeta\<close> for a section: the call of \<^verbatim>\<open>Write\<close> at the metadata address of the
  section with the encoded record, an error of it made fatal as \<^verbatim>\<open>writeMeta\<close> does.
\<close>

definition meta_write ::
  "'t transport \<Rightarrow> flags \<Rightarrow> Section \<Rightarrow> MetaData \<Rightarrow> 't QF \<Rightarrow> ((error + outputs) \<times> io list) option" where
  "meta_write tr fl sec m a =
     (case Write tr fl (meta sec) (binary_Write m) a of
        None \<Rightarrow> None
      | Some (Inl e, a') \<Rightarrow> Some (Inl (Fatal (FatalWriteMeta (name sec) e)), log a')
      | Some (Inr u, a') \<Rightarrow> Some (Inr Done, log a'))"

section \<open>Properties\<close>

subsection \<open>One command\<close>

lemma spi_read_result_aux:
  assumes "spi_read tr expect resp a = Some y"
  shows "case fst y of Inr d \<Rightarrow> length d = expect \<and> log (snd y) = log a @ [Rx d]
              | Inl e \<Rightarrow> log (snd y) = log a"
proof (rule spi_read.raw_induct
    [where P = "\<lambda>tr expect resp a y.
       case fst y of Inr d \<Rightarrow> length d = expect \<and> log (snd y) = log a @ [Rx d]
              | Inl e \<Rightarrow> log (snd y) = log a", OF _ assms])
  fix f :: "'a transport \<Rightarrow> nat \<Rightarrow> byte list \<Rightarrow> 'a QF \<Rightarrow> (byte list, 'a) outcome"
  fix tr expect resp a y
  assume IH: "\<And>tr expect resp a y. f tr expect resp a = Some y \<Longrightarrow>
       (case fst y of Inr d \<Rightarrow> length d = expect \<and> log (snd y) = log a @ [Rx d]
              | Inl e \<Rightarrow> log (snd y) = log a)"
  assume body: "(if length resp = expect
      then Some (Inr resp, a\<lparr>log := log a @ [Rx resp]\<rparr>)
      else let r = t_Read tr (port a) (expect - length resp);
               got = take (expect - length resp) (fst (fst r));
               a' = a\<lparr>port := snd r\<rparr>
           in if got = [] \<and> snd (fst r)
              then Some (Inl (ReadIDsFailed (length resp)), a')
              else f tr expect (resp @ got) a') = Some y"
  show "case fst y of Inr d \<Rightarrow> length d = expect \<and> log (snd y) = log a @ [Rx d]
              | Inl e \<Rightarrow> log (snd y) = log a"
  proof (cases "length resp = expect")
    case True
    with body show ?thesis by auto
  next
    case False
    define r where "r = t_Read tr (port a) (expect - length resp)"
    define got where "got = take (expect - length resp) (fst (fst r))"
    show ?thesis
    proof (cases "got = [] \<and> snd (fst r)")
      case True
      with body False show ?thesis
        by (simp add: Let_def r_def [symmetric] got_def [symmetric])
           (auto simp: got_def)
    next
      case stop: False
      with body False have "f tr expect (resp @ got) (a\<lparr>port := snd r\<rparr>) = Some y"
        by (simp add: Let_def r_def [symmetric] got_def [symmetric])
           (auto simp: got_def)
      from IH [OF this] show ?thesis by (cases "fst y") simp_all
    qed
  qed
qed

lemma spi_result:
  assumes "spi tr cmds expect a = Some (r, a')" "expect \<le> 16" "length cmds \<le> 16"
  shows "case r of Inr d \<Rightarrow> length d = expect \<and> log a' = log a @ [Tx (packet cmds expect), Rx d]
              | Inl e \<Rightarrow> log a' = log a @ [Tx (packet cmds expect)]"
proof (cases "fst (t_Write tr (port a) (packet cmds expect))")
  case True
  with assms show ?thesis
    unfolding packet_def by (auto simp: spi_def Let_def)
next
  case False
  with assms have "spi_read tr expect []
      (a\<lparr>port := snd (t_Write tr (port a) (packet cmds expect)),
         log := log a @ [Tx (packet cmds expect)]\<rparr>) = Some (r, a')"
    unfolding packet_def by (simp add: spi_def Let_def)
  from spi_read_result_aux [OF this] show ?thesis
    by (simp split: sum.splits)
qed

lemma seq_Some:
  "seq m wrap f = Some (r, a') \<longleftrightarrow>
     (\<exists>e. m = Some (Inl e, a') \<and> r = Inl (wrap e)) \<or>
     (\<exists>x a1. m = Some (Inr x, a1) \<and> f x a1 = Some (r, a'))"
  by (auto simp: seq_def split: option.splits sum.splits prod.splits)

lemma seqE:
  assumes "seq m wrap f = Some (r, a')"
  obtains (fail) e where "m = Some (Inl e, a')" "r = Inl (wrap e)"
        | (ok) x a1 where "m = Some (Inr x, a1)" "f x a1 = Some (r, a')"
  using assms unfolding seq_Some by blast

lemma wait_io_simps:
  "wait_io [] = []" "wait_io (s # ss) = Tx poll # Rx [s] # wait_io ss"
  "wait_io (ss @ ts) = wait_io ss @ wait_io ts"
  by (simp_all add: wait_io_def)

lemma spi_cmd_result:
  assumes "spi tr cmds 0 a = Some (r, a')" "length cmds \<le> 16"
  shows "(r = Inr [] \<and> log a' = log a @ [Tx (packet cmds 0), Rx []]) \<or>
         ((r = Inl WriteNotEnough \<or> r = Inl (ReadIDsFailed 0)) \<and> log a' = log a @ [Tx (packet cmds 0)])"
proof -
  have "spi_read tr 0 [] b = Some (Inr [], b\<lparr>log := log b @ [Rx []]\<rparr>)" for b :: "'a QF"
    by (subst spi_read.simps) simp
  with assms show ?thesis
    by (auto simp: spi_def Let_def packet_def split: if_splits)
qed

lemma writeEnable_result:
  assumes "writeEnable tr a = Some (r, a')"
  shows "(r = Inr () \<and> log a' = log a @ [Tx (packet [0x06] 0), Rx []]) \<or>
         (r = Inl ErrWriteEnableFailed \<and> log a' = log a @ [Tx (packet [0x06] 0)])"
  using assms spi_cmd_result [of tr "[0x06]" a]
  by (auto simp: writeEnable_def elim!: seqE)

lemma spi_status_result:
  assumes "spi tr [0x05] 1 a = Some (r, a')"
  shows "(\<exists>s. r = Inr [s] \<and> log a' = log a @ [Tx poll, Rx [s]]) \<or>
         (\<exists>e. r = Inl e \<and> log a' = log a @ [Tx poll])"
proof (cases r)
  case (Inl e)
  with spi_result [OF assms] show ?thesis by (simp add: poll_def)
next
  case (Inr d)
  with spi_result [OF assms] have "length d = 1" "log a' = log a @ [Tx poll, Rx d]"
    by (simp_all add: poll_def)
  moreover from this obtain s where "d = [s]" by (cases d) auto
  ultimately show ?thesis using Inr by simp
qed

lemma await_poll_result:
  assumes "await_poll tr msk desired k a = Some (r, a')"
  shows "\<exists>ss. (\<forall>s \<in> set ss. s AND msk \<noteq> desired) \<and>
           ((\<exists>s. r = Inr () \<and> s AND msk = desired \<and> log a' = log a @ wait_io (ss @ [s])) \<or>
            (\<exists>e. r = Inl (StatusFailed e) \<and> log a' = log a @ wait_io ss @ [Tx poll]) \<or>
            (r = Inl ErrTimedOut \<and> ss \<noteq> [] \<and> log a' = log a @ wait_io ss))"
  using assms
proof (induction k arbitrary: a)
  case 0
  then have "seq (spi tr [0x05] 1 a) StatusFailed
       (\<lambda>b a. if (b ! 0) AND msk = desired then Some (Inr (), a)
              else Some (Inl ErrTimedOut, a)) = Some (r, a')"
    by simp
  then show ?case
  proof (cases rule: seqE)
    case (fail e)
    with spi_status_result [of tr a "Inl e" a'] show ?thesis
      by (intro exI [of _ "[]"]) (simp add: wait_io_simps)
  next
    case (ok x a1)
    from spi_status_result [OF ok(1)] obtain s where x: "x = [s]" "log a1 = log a @ [Tx poll, Rx [s]]"
      by auto
    show ?thesis
    proof (cases "s AND msk = desired")
      case True
      with ok(2) x show ?thesis
        by (intro exI [of _ "[]"]) (auto simp: wait_io_simps)
    next
      case False
      with ok(2) x show ?thesis
        by (intro exI [of _ "[s]"]) (auto simp: wait_io_simps)
    qed
  qed
next
  case (Suc k)
  then have "seq (spi tr [0x05] 1 a) StatusFailed
       (\<lambda>b a. if (b ! 0) AND msk = desired then Some (Inr (), a)
              else await_poll tr msk desired k a) = Some (r, a')"
    by simp
  then show ?case
  proof (cases rule: seqE)
    case (fail e)
    with spi_status_result [of tr a "Inl e" a'] show ?thesis
      by (intro exI [of _ "[]"]) (simp add: wait_io_simps)
  next
    case (ok x a1)
    from spi_status_result [OF ok(1)] obtain s where x: "x = [s]" "log a1 = log a @ [Tx poll, Rx [s]]"
      by auto
    show ?thesis
    proof (cases "s AND msk = desired")
      case True
      with ok(2) x show ?thesis
        by (intro exI [of _ "[]"]) (auto simp: wait_io_simps)
    next
      case False
      with ok(2) x have "await_poll tr msk desired k a1 = Some (r, a')" by simp
      from Suc.IH [OF this] obtain ss where ss: "\<forall>s \<in> set ss. s AND msk \<noteq> desired"
        "(\<exists>s. r = Inr () \<and> s AND msk = desired \<and> log a' = log a1 @ wait_io (ss @ [s])) \<or>
            (\<exists>e. r = Inl (StatusFailed e) \<and> log a' = log a1 @ wait_io ss @ [Tx poll]) \<or>
            (r = Inl ErrTimedOut \<and> ss \<noteq> [] \<and> log a' = log a1 @ wait_io ss)"
        by blast
      with False x show ?thesis
        by (intro exI [of _ "s # ss"]) (auto simp: wait_io_simps)
    qed
  qed
qed

subsection \<open>Masks and padding\<close>

lemma and_fff_mod: "(x::int) AND 0xfff = x mod 4096"
  using take_bit_eq_mask [of 12 x] by (simp add: take_bit_eq_mod mask_eq_exp_minus_1)

lemma int64_id: "- (2 ^ 63) \<le> x \<Longrightarrow> x < 2 ^ 63 \<Longrightarrow> int64 x = x"
  by (simp add: int64_def)

lemma int64_inside: "0 \<le> x \<Longrightarrow> x \<le> 2 ^ 24 \<Longrightarrow> int64 x = x"
  by (rule int64_id) simp_all

lemma and_15_mod: "(x::int) AND 15 = x mod 16"
  using take_bit_eq_mask [of 4 x] by (simp add: take_bit_eq_mod mask_eq_exp_minus_1)

lemma and_ff_mod: "(x::int) AND 0xff = x mod 256"
  using take_bit_eq_mask [of 8 x] by (simp add: take_bit_eq_mod mask_eq_exp_minus_1)

lemma length_fold_update:
  "length (fold (\<lambda>i act. act[m + i := v]) js xs) = length xs"
  by (induction js arbitrary: xs) simp_all

lemma nth_fold_update:
  "j < length xs \<Longrightarrow>
   fold (\<lambda>i act. act[m + i := v]) [0..<n] xs ! j = (if m \<le> j \<and> j < m + n then v else xs ! j)"
proof (induction n)
  case 0
  then show ?case by auto
next
  case (Suc n)
  show ?case
  proof (cases "j = m + n")
    case True
    with Suc.prems show ?thesis
      by (simp add: length_fold_update)
  next
    case False
    with Suc show ?thesis
      by (simp add: length_fold_update)
  qed
qed

lemma copy_front: "length src \<le> length dst \<Longrightarrow> copy dst src = src @ drop (length src) dst"
  by (simp add: copy_def min_def)

lemma int_mod_4096: "int n mod 4096 = int (n mod 4096)"
  by (simp add: zmod_int)

lemma pad_eq:
  "pad data = (if length data mod 4096 = 0 then data
               else data @ replicate (4096 - length data mod 4096) 0xff)"
proof (cases "length data mod 4096 = 0")
  case True
  then show ?thesis by (simp add: pad_def and_fff_mod int_mod_4096)
next
  case False
  define extend where "extend = 4096 - length data mod 4096"
  have ext: "nat (0x1000 - (int (length data) AND 0xfff)) = extend"
    unfolding and_fff_mod extend_def int_mod_4096 by (simp add: nat_diff_distrib')
  define actual where
    "actual = fold (\<lambda>i act. act[length data + i := (0xff::byte)]) [0..<extend]
                (replicate (length data + extend) 0)"
  have len: "length actual = length data + extend"
    by (simp add: actual_def length_fold_update)
  have "drop (length data) actual = replicate extend 0xff"
  proof (rule nth_equalityI)
    show "length (drop (length data) actual) = length (replicate extend (0xff::byte))"
      by (simp add: len)
    fix i assume "i < length (drop (length data) actual)"
    then have i: "i < extend" by (simp add: len)
    then show "drop (length data) actual ! i = replicate extend 0xff ! i"
      by (simp add: actual_def nth_fold_update length_fold_update)
  qed
  then have c: "copy actual data = data @ replicate extend 0xff"
    by (simp add: copy_front len)
  have nz: "int (length data) AND 0xfff \<noteq> 0"
    using False by (simp add: and_fff_mod int_mod_4096)
  have "pad data = copy actual data"
    unfolding pad_def Let_def ext actual_def using nz by simp
  with c False show ?thesis
    by (simp add: extend_def)
qed

lemma length_pad: "length (pad data) = (length data + 4095) div 4096 * 4096"
proof (cases "length data mod 4096 = 0")
  case True
  then show ?thesis by (auto simp: pad_eq elim!: dvdE dest!: mod_0_imp_dvd)
next
  case False
  define q where "q = length data div 4096"
  define r where "r = length data mod 4096"
  have l: "length data = q * 4096 + r" and r: "0 < r" "r < 4096"
    using False by (simp_all add: q_def r_def)
  have "(q * 4096 + r + 4095) div 4096 = q + 1"
    using r by (simp add: div_nat_eqI)
  with False show ?thesis
    unfolding pad_eq using r l by (simp add: r_def [symmetric])
qed

lemma pad_Nil: "pad [] = []"
  by (simp add: pad_eq)

lemma length_pad_ge: "length data \<le> length (pad data)"
  using mod_less_divisor [of 4096 "length data"] by (auto simp: pad_eq)

lemma romSize_sectors: "romSize = 4096 * 512" "romSize \<le> 2 ^ 24"
  by (simp_all add: romSize_def)

lemma pad_in_range:
  assumes "address mod 4096 = 0"
  shows "address + int (length (pad data)) \<le> romSize \<longleftrightarrow> address + int (length data) \<le> romSize"
proof
  assume "address + int (length (pad data)) \<le> romSize"
  with length_pad_ge [of data] show "address + int (length data) \<le> romSize" by linarith
next
  assume le: "address + int (length data) \<le> romSize"
  from assms obtain q where q: "address = 4096 * q" by (auto dest!: mod_0_imp_dvd)
  define k where "k = (length data + 4095) div 4096"
  have "k * 4096 \<le> length data + 4095"
    unfolding k_def by (rule div_times_less_eq_dividend)
  then have "4096 * int k \<le> int (length data) + 4095" by linarith
  with le q have "4096 * int k < 4096 * (512 - q + 1)" by (simp add: romSize_def)
  then have "int k < 512 - q + 1" by simp
  then have "4096 * int k \<le> 4096 * (512 - q)" by simp
  then show "address + int (length (pad data)) \<le> romSize"
    using q by (simp add: length_pad k_def [symmetric] romSize_def)
qed

lemma Write_Nil:
  assumes "address AND 0xfff = 0" "0 \<le> address" "address \<le> romSize"
  shows "Write tr fl address [] a = Some (Inr (), a)"
  using assms int64_inside [of address]
  by (simp add: Write_def pad_Nil Write_loop.simps romSize_def)

subsection \<open>Packets and cells\<close>

lemma programmed_append: "programmed (xs @ ys) = programmed xs @ programmed ys"
  by (induction xs rule: programmed.induct) simp_all

lemma length_header: "length (header n k) = 5"
  by (simp add: header_def)

lemma length_addr_bytes: "length (addr_bytes a) = 3"
  by (simp add: addr_bytes_def)

lemma uint_byte_of_int: "uint (word_of_int x :: byte) = x mod 256"
  by (simp add: uint_word_of_int)

lemma addr_of_addr_bytes:
  assumes "0 \<le> a" "a < 2 ^ 24"
  shows "addr_of (addr_bytes a) = a"
proof -
  define h where "h = a div 256"
  have b2: "uint (word_of_int (a AND 0xFF) :: byte) = a mod 256"
    by (simp add: uint_byte_of_int and_ff_mod)
  have b1: "uint (word_of_int (drop_bit 8 a AND 0xFF) :: byte) = h mod 256"
    by (simp add: uint_byte_of_int and_ff_mod drop_bit_eq_div h_def)
  have "a div 65536 = h div 256"
    by (simp add: h_def div_mult2_eq [symmetric])
  moreover have "h div 256 < 256" using assms
    by (simp add: h_def div_mult2_eq [symmetric])
  moreover have "0 \<le> h div 256" using assms by (simp add: h_def)
  ultimately have b0: "uint (word_of_int (drop_bit 16 a AND 0xFF) :: byte) = h div 256"
    by (simp add: uint_byte_of_int and_ff_mod drop_bit_eq_div)
  have "a = h * 256 + a mod 256" by (simp add: h_def)
  moreover have "h = h div 256 * 256 + h mod 256" by simp
  ultimately have "h div 256 * 65536 + h mod 256 * 256 + a mod 256 = a"
    by linarith
  then show ?thesis
    unfolding addr_of_def addr_bytes_def using b0 b1 b2 by simp
qed

lemma cells_Nil: "cells a [] = []"
  by (simp add: cells_def)

lemma cells_append: "cells a (xs @ ys) = cells a xs @ cells (a + int (length xs)) ys"
proof -
  have "map (\<lambda>i. a + int i) [length xs..<length xs + length ys]
      = map (\<lambda>i. a + int (length xs) + int i) [0..<length ys]"
    by (rule nth_equalityI) simp_all
  then show ?thesis
    by (simp add: cells_def upt_add_eq_append [of 0 "length xs" "length ys", simplified])
qed

lemma length_packet: "length (packet cmds e) = 5 + length cmds"
  by (simp add: packet_def length_header)

lemma packet_opcode: "packet (c # cs) e ! 5 = c"
  by (simp add: packet_def nth_append length_header)

lemma drop_packet: "drop 5 (packet cmds e) = cmds"
  by (simp add: packet_def length_header)

lemma drop6_packet: "drop 6 (packet (c # cs) e) = cs"
  using drop_packet [of "c # cs" e] drop_drop [of 1 5 "packet (c # cs) e"] by simp

lemma programmed_other:
  "length cmds < 4 \<or> hd cmds \<noteq> 0x02 \<Longrightarrow> programmed (Tx (packet cmds e) # lg) = programmed lg"
  by (cases cmds) (auto simp: length_packet packet_opcode)

lemma programmed_program:
  assumes "0 \<le> a" "a < 2 ^ 24"
  shows "programmed (Tx (packet (0x02 # addr_bytes a @ payload) e) # lg)
           = cells a payload @ programmed lg"
proof -
  have "drop 9 (packet (0x02 # addr_bytes a @ payload) e) = payload"
    using drop_drop [of 3 6 "packet (0x02 # addr_bytes a @ payload) e"]
    by (simp add: drop6_packet length_addr_bytes)
  then show ?thesis
    using assms
    by (simp add: length_packet packet_opcode drop6_packet length_addr_bytes addr_of_addr_bytes)
qed

lemma programmed_poll: "programmed (Tx poll # lg) = programmed lg"
  unfolding poll_def by (rule programmed_other) simp

lemma programmed_wait_io: "programmed (wait_io ss) = []"
  by (induction ss) (simp_all add: wait_io_simps programmed_poll del: programmed.simps(3))

lemma programmed_we: "programmed (Tx (packet [0x06] e) # lg) = programmed lg"
  by (rule programmed_other) simp

lemma programmed_erase: "programmed (Tx (packet (0x20 # cs) e) # lg) = programmed lg"
  by (rule programmed_other) simp

subsection \<open>The blocks of the write loop\<close>

lemma waited_busy: "busy ss \<Longrightarrow> waited c k (wait_io ss @ rest) = waited c k rest"
  by (induction ss) (simp_all add: wait_io_simps busy_def)

lemma waited_done:
  "busy ss \<Longrightarrow> s AND flashWIP = 0 \<Longrightarrow> waited c k (wait_io (ss @ [s]) @ rest) = k rest"
  by (simp add: wait_io_simps waited_busy)

lemma waited_cut: "busy ss \<Longrightarrow> waited False k (wait_io ss)" "busy ss \<Longrightarrow> waited False k (wait_io ss @ [Tx poll])"
  using waited_busy [of ss False k "[]"] waited_busy [of ss False k "[Tx poll]"] by simp_all

lemma await_flash_result:
  assumes "await tr fl flashWIP 0 t a = Some (r, a')"
  shows "\<exists>new. log a' = log a @ new \<and> programmed new = [] \<and>
           (r = Inr () \<longrightarrow> (\<forall>c k rest. waited c k (new @ rest) = k rest)) \<and>
           (isl r \<longrightarrow> (\<forall>k. waited False k new)) \<and> r \<noteq> Inl WriteOutside"
proof -
  from assms obtain ss where ss: "busy ss"
    and cases: "(\<exists>s. r = Inr () \<and> s AND flashWIP = 0 \<and> log a' = log a @ wait_io (ss @ [s])) \<or>
            (\<exists>e. r = Inl (StatusFailed e) \<and> log a' = log a @ wait_io ss @ [Tx poll]) \<or>
            (r = Inl ErrTimedOut \<and> ss \<noteq> [] \<and> log a' = log a @ wait_io ss)"
    unfolding await_def busy_def by (blast dest: await_poll_result)
  from cases show ?thesis
  proof (elim disjE exE conjE)
    fix s assume "r = Inr ()" "s AND flashWIP = 0" "log a' = log a @ wait_io (ss @ [s])"
    with ss show ?thesis
      by (intro exI [of _ "wait_io (ss @ [s])"]) (simp add: programmed_wait_io waited_done)
  next
    fix e assume "r = Inl (StatusFailed e)" "log a' = log a @ wait_io ss @ [Tx poll]"
    with ss show ?thesis
      by (intro exI [of _ "wait_io ss @ [Tx poll]"])
         (simp add: programmed_append programmed_wait_io waited_cut programmed_poll
            del: programmed.simps(3))
  next
    assume "r = Inl ErrTimedOut" "log a' = log a @ wait_io ss"
    with ss show ?thesis
      by (intro exI [of _ "wait_io ss"]) (simp add: programmed_wait_io waited_cut)
  qed
qed

lemma erase_sector_result:
  assumes "erase_sector tr fl address a = Some (r, a')"
  shows "\<exists>new. log a' = log a @ new \<and> programmed new = [] \<and>
           (r = Inr () \<longrightarrow> (\<forall>c k rest. erase_order c address k (new @ rest) = k rest)) \<and>
           (isl r \<longrightarrow> (\<forall>k. erase_order False address k new)) \<and> r \<noteq> Inl WriteOutside"
proof -
  from assms have "seq (writeEnable tr a) (EraseEnableFailed address) (\<lambda>_ a.
         seq (spi tr (0x20 # addr_bytes address) 0 a) (EraseFailed address) (\<lambda>_ a.
         seq (await tr fl flashWIP 0 (latency fl) a) SectorEraseError (\<lambda>_ a.
         Some (Inr (), a)))) = Some (r, a')"
    by (simp add: erase_sector_def)
  then show ?thesis
  proof (cases rule: seqE)
    case (fail e)
    with writeEnable_result [OF fail(1)] show ?thesis
      by (intro exI [of _ "[Tx (packet [0x06] 0)]"])
         (simp add: erase_order_def programmed_we del: programmed.simps(3))
  next
    case we: (ok x a1)
    with writeEnable_result [OF we(1)]
    have l1: "log a1 = log a @ [Tx (packet [0x06] 0), Rx []]" by simp
    from we(2) show ?thesis
    proof (cases rule: seqE)
      case (fail e)
      with spi_cmd_result [OF fail(1)] l1 show ?thesis
        by (intro exI [of _ "[Tx (packet [0x06] 0), Rx [], Tx (packet (0x20 # addr_bytes address) 0)]"])
           (auto simp add: erase_order_def programmed_we programmed_erase length_addr_bytes
              simp del: programmed.simps(3))
    next
      case er: (ok y a2)
      with spi_cmd_result [OF er(1)] l1
      have l2: "log a2 = log a @ [Tx (packet [0x06] 0), Rx [],
                  Tx (packet (0x20 # addr_bytes address) 0), Rx []]"
        by (simp add: length_addr_bytes)
      from er(2) show ?thesis
      proof (cases rule: seqE)
        case (fail e)
        from await_flash_result [OF fail(1)] obtain new where
          new: "log a' = log a2 @ new" "programmed new = []" "\<forall>k. waited False k new"
          by auto
        with fail l2 show ?thesis
          by (intro exI [of _ "[Tx (packet [0x06] 0), Rx [],
                  Tx (packet (0x20 # addr_bytes address) 0), Rx []] @ new"])
             (simp add: erase_order_def programmed_we programmed_erase del: programmed.simps(3))
      next
        case (ok z a3)
        from await_flash_result [OF ok(1)] obtain new where
          new: "log a3 = log a2 @ new" "programmed new = []"
               "\<forall>c k rest. waited c k (new @ rest) = k rest"
          by auto
        with ok l2 show ?thesis
          by (intro exI [of _ "[Tx (packet [0x06] 0), Rx [],
                  Tx (packet (0x20 # addr_bytes address) 0), Rx []] @ new"])
             (auto simp add: erase_order_def programmed_we programmed_erase
                simp del: programmed.simps(3))
      qed
    qed
  qed
qed

lemma program_page_result:
  assumes "program_page tr fl address payload a = Some (r, a')"
    and "length payload \<le> 8" "0 \<le> address" "address < 2 ^ 24"
  shows "\<exists>new. log a' = log a @ new \<and>
           (r = Inr () \<longrightarrow> programmed new = cells address payload \<and>
              (\<forall>c k rest. program_order c address payload k (new @ rest) = k rest)) \<and>
           (isl r \<longrightarrow> (programmed new = [] \<or> programmed new = cells address payload) \<and>
              (\<forall>k. program_order False address payload k new)) \<and> r \<noteq> Inl WriteOutside"
proof -
  let ?pp = "packet (0x02 # addr_bytes address @ payload) 0"
  have pp: "programmed (Tx ?pp # lg) = cells address payload @ programmed lg" for lg
    using assms by (simp add: programmed_program del: programmed.simps(3))
  from assms have "seq (writeEnable tr a) (\<lambda>_. ProgramEnableFailed address) (\<lambda>_ a.
         seq (spi tr (0x02 # addr_bytes address @ payload) 0 a) id (\<lambda>_ a.
         seq (await tr fl flashWIP 0 (latency fl) a) SectorEraseError (\<lambda>_ a.
         Some (Inr (), a)))) = Some (r, a')"
    by (simp add: program_page_def)
  then show ?thesis
  proof (cases rule: seqE)
    case (fail e)
    with writeEnable_result [OF fail(1)] show ?thesis
      by (intro exI [of _ "[Tx (packet [0x06] 0)]"])
         (simp add: program_order_def programmed_we del: programmed.simps(3))
  next
    case we: (ok x a1)
    with writeEnable_result [OF we(1)]
    have l1: "log a1 = log a @ [Tx (packet [0x06] 0), Rx []]" by simp
    from we(2) show ?thesis
    proof (cases rule: seqE)
      case (fail e)
      with spi_cmd_result [OF fail(1)] l1 assms(2) show ?thesis
        by (intro exI [of _ "[Tx (packet [0x06] 0), Rx [], Tx ?pp]"])
           (auto simp add: program_order_def programmed_we pp length_addr_bytes
              simp del: programmed.simps(3))
    next
      case er: (ok y a2)
      with spi_cmd_result [OF er(1)] l1 assms(2)
      have l2: "log a2 = log a @ [Tx (packet [0x06] 0), Rx [], Tx ?pp, Rx []]"
        by (simp add: length_addr_bytes)
      from er(2) show ?thesis
      proof (cases rule: seqE)
        case (fail e)
        from await_flash_result [OF fail(1)] obtain new where
          new: "log a' = log a2 @ new" "programmed new = []" "\<forall>k. waited False k new"
          by auto
        with fail l2 show ?thesis
          by (intro exI [of _ "[Tx (packet [0x06] 0), Rx [], Tx ?pp, Rx []] @ new"])
             (simp add: program_order_def programmed_we pp del: programmed.simps(3))
      next
        case (ok z a3)
        from await_flash_result [OF ok(1)] obtain new where
          new: "log a3 = log a2 @ new" "programmed new = []"
               "\<forall>c k rest. waited c k (new @ rest) = k rest"
          by auto
        with ok l2 show ?thesis
          by (intro exI [of _ "[Tx (packet [0x06] 0), Rx [], Tx ?pp, Rx []] @ new"])
             (auto simp add: program_order_def programmed_we pp simp del: programmed.simps(3))
      qed
    qed
  qed
qed

lemma write_order_Nil: "write_order c address [] lg = (lg = [])"
  by (simp add: write_order.simps)

lemma write_order_step:
  "d \<noteq> [] \<Longrightarrow> write_order c address d lg =
     (let program = program_order c address (take 8 d)
            (\<lambda>lg. write_order c (address + int (length (take 8 d))) (drop 8 d) lg)
      in if address mod 4096 = 0 then erase_order c address program lg else program lg)"
  by (subst write_order.simps) (simp add: Let_def)

lemma Write_loop_run:
  assumes "Write_loop tr fl address data offset n a = Some (r, a')"
    and "0 \<le> offset" "offset + n = int (length data)" "0 \<le> address" "address + n \<le> 2 ^ 24"
  shows "\<exists>new. log a' = log a @ new \<and>
           write_order (\<not> isl r) address (drop (nat offset) data) new \<and>
           programmed new
             = take (length (programmed new)) (cells address (drop (nat offset) data)) \<and>
           (\<not> isl r \<longrightarrow> programmed new = cells address (drop (nat offset) data)) \<and>
           r \<noteq> Inl WriteOutside"
  using assms
proof (induction "nat n" arbitrary: address offset n a rule: less_induct)
  case less
  note run = less.prems(1)
  define d where "d = drop (nat offset) data"
  show ?case
  proof (cases "n > 0")
    case False
    with less.prems have "d = []" by (simp add: d_def)
    moreover from run False have "r = Inr ()" "a' = a"
      by (simp_all add: Write_loop.simps)
    ultimately show ?thesis
      unfolding d_def [symmetric] by (simp add: write_order_Nil cells_Nil)
  next
    case True
    define delta where "delta = write_delta n"
    define chunk where "chunk = take 8 d"
    have len_d: "int (length d) = n"
      using less.prems True by (simp add: d_def)
    then have d_ne: "d \<noteq> []" using True by auto
    have delta: "delta = min n 8" "0 < delta" "delta \<le> n"
      using True by (simp_all add: delta_def write_delta_def Let_def)
    have f1: "take (nat delta) d = chunk"
      using len_d delta by (cases "n > 8") (simp_all add: chunk_def min_def)
    have f2: "int (length chunk) = delta"
      using len_d delta by (simp add: chunk_def min_def)
    have f3: "drop (nat (offset + delta)) data = drop 8 d"
    proof (cases "n > 8")
      case True
      with delta less.prems(2) show ?thesis
        by (simp add: d_def nat_add_distrib add.commute)
    next
      case False
      with delta len_d have "drop 8 d = []" by simp
      moreover from False delta less.prems have "drop (nat (offset + delta)) data = []"
        by simp
      ultimately show ?thesis by simp
    qed
    have f4: "cells address d = cells address chunk @ cells (address + delta) (drop 8 d)"
      using cells_append [of address chunk "drop 8 d"] f2 by (simp add: chunk_def)
    have small: "length chunk \<le> 8" "address < 2 ^ 24"
      using less.prems True by (simp_all add: chunk_def)
    let ?next = "\<lambda>c lg. write_order c (address + delta) (drop 8 d) lg"
    let ?prog = "\<lambda>c. program_order c address chunk (?next c)"
    have wo: "write_order c address d lg =
        (if address mod 4096 = 0 then erase_order c address (?prog c) lg else ?prog c lg)" for c lg
      using write_order_step [OF d_ne, of c address lg] f2 by (simp add: Let_def chunk_def)
    have nowrap: "int64 (address + delta) = address + delta"
      using less.prems delta by (intro int64_inside) simp_all
    let ?E = "if address AND 0xfff = 0 then erase_sector tr fl address a else Some (Inr (), a)"
    from run True have
      "seq ?E id (\<lambda>_ a. seq (program_page tr fl address chunk a) id
          (\<lambda>_ a. Write_loop tr fl (address + delta) data (offset + delta) (n - delta) a))
        = Some (r, a')"
      by (subst (asm) Write_loop.simps)
         (simp add: Let_def delta_def [symmetric] d_def [symmetric] f1 nowrap)
    then show ?thesis
    proof (cases rule: seqE)
      case (fail e)
      then have al: "address mod 4096 = 0" and er: "erase_sector tr fl address a = Some (Inl e, a')"
        by (simp_all add: and_fff_mod split: if_splits)
      from erase_sector_result [OF er] fail(2) obtain new where
        "log a' = log a @ new" "programmed new = []" "\<forall>k. erase_order False address k new"
        "r \<noteq> Inl WriteOutside"
        by auto
      with fail(2) al show ?thesis
        unfolding d_def [symmetric] by (intro exI [of _ new]) (simp add: wo)
    next
      case (ok x a1)
      have "\<exists>new1. log a1 = log a @ new1 \<and> programmed new1 = [] \<and>
              (\<forall>c lg. write_order c address d (new1 @ lg) = ?prog c lg)"
      proof (cases "address mod 4096 = 0")
        case True
        with ok(1) have "erase_sector tr fl address a = Some (Inr x, a1)"
          by (simp add: and_fff_mod)
        from erase_sector_result [OF this] True show ?thesis
          by (auto simp: wo)
      next
        case False
        with ok(1) have "a1 = a" by (simp add: and_fff_mod)
        with False show ?thesis
          by (intro exI [of _ "[]"]) (simp add: wo)
      qed
      then obtain new1 where new1: "log a1 = log a @ new1" "programmed new1 = []"
        "\<And>c lg. write_order c address d (new1 @ lg) = ?prog c lg"
        by blast
      from ok(2) show ?thesis
      proof (cases rule: seqE)
        case (fail e)
        from program_page_result [OF fail(1) small(1) less.prems(4) small(2)] fail(2)
        obtain new2 where new2: "log a' = log a1 @ new2"
          "programmed new2 = [] \<or> programmed new2 = cells address chunk"
          "\<forall>k. program_order False address chunk k new2" "r \<noteq> Inl WriteOutside"
          by auto
        from new2(2) have "programmed new2 = take (length (programmed new2)) (cells address d)"
          by (auto simp: f4)
        with new1 new2 fail(2) show ?thesis
          unfolding d_def [symmetric]
          by (intro exI [of _ "new1 @ new2"]) (simp add: programmed_append)
      next
        case pg: (ok y a2)
        from program_page_result [OF pg(1) small(1) less.prems(4) small(2)]
        obtain new2 where new2: "log a2 = log a1 @ new2"
          "programmed new2 = cells address chunk"
          "\<And>c k rest. program_order c address chunk k (new2 @ rest) = k rest"
          by auto
        have "nat (n - delta) < nat n" using delta by simp
        from less.hyps [OF this pg(2)] less.prems delta
        obtain new3 where new3: "log a' = log a2 @ new3"
          "write_order (\<not> isl r) (address + delta) (drop 8 d) new3"
          "programmed new3 = take (length (programmed new3)) (cells (address + delta) (drop 8 d))"
          "\<not> isl r \<longrightarrow> programmed new3 = cells (address + delta) (drop 8 d)"
          "r \<noteq> Inl WriteOutside"
          unfolding f3 by auto
        have "programmed (new1 @ new2 @ new3)
            = take (length (programmed (new1 @ new2 @ new3))) (cells address d)"
          using new1(2) new2(2) new3(3) by (simp add: programmed_append f4)
        moreover have "\<not> isl r \<longrightarrow> programmed (new1 @ new2 @ new3) = cells address d"
          using new1(2) new2(2) new3(4) by (simp add: programmed_append f4)
        moreover have "write_order (\<not> isl r) address d (new1 @ new2 @ new3)"
          using new1(3) new2(3) new3(2) by simp
        moreover have "log a' = log a @ new1 @ new2 @ new3"
          using new1(1) new2(1) new3(1) by simp
        ultimately show ?thesis
          unfolding d_def [symmetric] using new3(5) by blast
      qed
    qed
  qed
qed

lemma Write_run:
  assumes "address AND 0xfff = 0" "0 \<le> address" "address + int (length data) \<le> romSize"
    and "Write tr fl address data a = Some (r, a')"
  shows "\<exists>new. log a' = log a @ new \<and>
           write_order (\<not> isl r) address (pad data) new \<and>
           programmed new = take (length (programmed new)) (cells address (pad data)) \<and>
           (\<not> isl r \<longrightarrow> programmed new = cells address (pad data)) \<and>
           r \<noteq> Inl WriteOutside"
proof -
  have al: "address mod 4096 = 0" using assms(1) by (simp add: and_fff_mod)
  then have fit: "address + int (length (pad data)) \<le> romSize"
    using assms(3) by (simp add: pad_in_range)
  with assms(2) have "int64 (address + int (length (pad data))) = address + int (length (pad data))"
    using romSize_sectors(2) by (intro int64_inside) simp_all
  with fit assms have "Write_loop tr fl address (pad data) 0 (int (length (pad data))) a = Some (r, a')"
    by (simp add: Write_def Let_def)
  from Write_loop_run [OF this] fit assms(2) romSize_sectors(2) show ?thesis
    by simp
qed

subsection \<open>The read loop\<close>

lemma read_delta_min: "read_delta address n = min (16 - address mod 16) n"
  by (simp add: read_delta_def Let_def and_15_mod min_def)

lemma read_plan_Nil: "n \<le> 0 \<Longrightarrow> read_plan address n = []"
  by (simp add: read_plan.simps)

lemma read_plan_Cons:
  "0 < n \<Longrightarrow> read_plan address n
     = (address, read_delta address n)
         # read_plan (address + read_delta address n) (n - read_delta address n)"
  by (subst read_plan.simps) (simp add: read_delta_min Let_def)

lemma read_delta_bounds:
  assumes "0 < n"
  shows "0 < read_delta address n" "read_delta address n \<le> 16" "read_delta address n \<le> n"
    "address mod 16 + read_delta address n \<le> 16"
proof -
  have "0 \<le> address mod 16" "address mod 16 < 16" by simp_all
  with assms show "0 < read_delta address n" "read_delta address n \<le> 16"
    "read_delta address n \<le> n" "address mod 16 + read_delta address n \<le> 16"
    by (auto simp: read_delta_min min_def)
qed

lemma exchanges_simps:
  "exchanges [] ds = []" "exchanges plan [] = []"
  "exchanges (req # plan) (d # ds) = Tx (read_packet req) # Rx d # exchanges plan ds"
  by (simp_all add: exchanges_def)

lemma Read_loop_run:
  assumes "Read_loop tr address n result a = Some (r, a')"
  shows "\<exists>ds. list_all2 (\<lambda>req d. int (length d) = snd req) (take (length ds) (read_plan address n)) ds \<and>
           (case r of
              Inr res \<Rightarrow> length ds = length (read_plan address n) \<and> res = result @ concat ds \<and>
                log a' = log a @ exchanges (read_plan address n) ds
            | Inl e \<Rightarrow> length ds < length (read_plan address n) \<and>
                log a' = log a @ exchanges (read_plan address n) ds
                           @ [Tx (read_packet (read_plan address n ! length ds))])"
  using assms
proof (induction "nat n" arbitrary: address n result a rule: less_induct)
  case less
  note run = less.prems(1)
  show ?case
  proof (cases "n > 0")
    case False
    with run have "r = Inr result" "a' = a" by (simp_all add: Read_loop.simps)
    with False show ?thesis
      by (intro exI [of _ "[]"]) (simp add: read_plan_Nil exchanges_simps)
  next
    case True
    define delta where "delta = read_delta address n"
    note b = read_delta_bounds [OF True, of address, folded delta_def]
    have plan: "read_plan address n = (address, delta) # read_plan (address + delta) (n - delta)"
      using read_plan_Cons [OF True, of address] by (simp add: delta_def)
    let ?cmd = "0x0B # addr_bytes address @ [0]"
    have pk: "packet ?cmd (nat delta) = read_packet (address, delta)"
      by (simp add: read_packet_def)
    from run True have
      "seq (spi tr ?cmd (nat delta) a) id
          (\<lambda>d a. Read_loop tr (address + delta) (n - delta) (result @ d) a) = Some (r, a')"
      by (subst (asm) Read_loop.simps) (simp add: Let_def delta_def [symmetric])
    then show ?thesis
    proof (cases rule: seqE)
      case (fail e)
      from spi_result [OF fail(1)] b have "log a' = log a @ [Tx (read_packet (address, delta))]"
        by (simp add: length_addr_bytes pk)
      with fail(2) show ?thesis
        by (intro exI [of _ "[]"]) (simp add: plan exchanges_simps)
    next
      case (ok d a1)
      from spi_result [OF ok(1)] b
      have d: "int (length d) = delta" "log a1 = log a @ [Tx (read_packet (address, delta)), Rx d]"
        by (simp_all add: length_addr_bytes pk)
      have "nat (n - delta) < nat n" using b True by simp
      from less.hyps [OF this ok(2)] obtain ds where
        ds: "list_all2 (\<lambda>req d. int (length d) = snd req)
               (take (length ds) (read_plan (address + delta) (n - delta))) ds"
        "case r of
              Inr res \<Rightarrow> length ds = length (read_plan (address + delta) (n - delta)) \<and>
                res = (result @ d) @ concat ds \<and>
                log a' = log a1 @ exchanges (read_plan (address + delta) (n - delta)) ds
            | Inl e \<Rightarrow> length ds < length (read_plan (address + delta) (n - delta)) \<and>
                log a' = log a1 @ exchanges (read_plan (address + delta) (n - delta)) ds
                           @ [Tx (read_packet (read_plan (address + delta) (n - delta) ! length ds))]"
        by blast
      with d show ?thesis
        by (intro exI [of _ "d # ds"]) (auto simp: plan exchanges_simps split: sum.splits)
    qed
  qed
qed

lemma read_plan_total: "0 \<le> n \<Longrightarrow> sum_list (map snd (read_plan address n)) = n"
proof (induction "nat n" arbitrary: address n rule: less_induct)
  case less
  show ?case
  proof (cases "n > 0")
    case False
    with less.prems show ?thesis by (simp add: read_plan_Nil)
  next
    case True
    note b = read_delta_bounds [OF True, of address]
    have "nat (n - read_delta address n) < nat n" using b True by simp
    from less.hyps [OF this, of "address + read_delta address n"] b
    show ?thesis by (simp add: read_plan_Cons [OF True])
  qed
qed



subsection \<open>Ports that answer\<close>

lemma spi_read_total:
  assumes "reliable tr" "length resp \<le> expect"
  shows "\<exists>d a'. spi_read tr expect resp a = Some (Inr d, a')"
  using assms(2)
proof (induction "expect - length resp" arbitrary: resp a rule: less_induct)
  case less
  show ?case
  proof (cases "length resp = expect")
    case True
    then show ?thesis by (subst spi_read.simps) simp
  next
    case False
    define r where "r = t_Read tr (port a) (expect - length resp)"
    define got where "got = take (expect - length resp) (fst (fst r))"
    from False less.prems have pos: "0 < expect - length resp" by simp
    with assms(1) have ne: "fst (fst r) \<noteq> []" by (simp add: reliable_def r_def)
    with pos have got: "got \<noteq> []" "length got \<le> expect - length resp"
      by (simp_all add: got_def)
    from got(1) obtain x xs where "got = x # xs" by (cases got) auto
    with got(2) pos have "expect - length (resp @ got) < expect - length resp"
      "length (resp @ got) \<le> expect"
      by simp_all
    from less.hyps [OF this] obtain d a' where
      "spi_read tr expect (resp @ got) (a\<lparr>port := snd r\<rparr>) = Some (Inr d, a')"
      by blast
    with False got(1) ne less.prems show ?thesis
      by (subst spi_read.simps) (simp add: Let_def r_def [symmetric] got_def [symmetric])
  qed
qed

lemma spi_total:
  assumes "reliable tr" "expect \<le> 16" "length cmds \<le> 16"
  shows "\<exists>d a'. spi tr cmds expect a = Some (Inr d, a')"
  using assms spi_read_total [OF assms(1), of "[]" expect]
  by (simp add: spi_def Let_def reliable_def)

lemma spi_status_idle:
  assumes "reliable tr" "idle tr"
  shows "\<exists>s a'. spi tr [0x05] 1 a = Some (Inr [s], a') \<and> s AND flashWIP = 0"
proof -
  define a1 where "a1 = a\<lparr>port := snd (t_Write tr (port a) (packet [0x05] 1)),
                           log := log a @ [Tx (packet [0x05] 1)]\<rparr>"
  define r where "r = t_Read tr (port a1) (Suc 0)"
  from assms have ne: "fst (fst r) \<noteq> []" and z: "hd (fst (fst r)) AND flashWIP = 0"
    by (simp_all add: reliable_def idle_def r_def)
  then have tk: "take (Suc 0) (fst (fst r)) = [hd (fst (fst r))]"
    by (cases "fst (fst r)") simp_all
  have "spi_read tr 1 [hd (fst (fst r))] b = Some (Inr [hd (fst (fst r))], b\<lparr>log := log b @ [Rx [hd (fst (fst r))]]\<rparr>)"
    for b :: "'a QF"
    by (subst spi_read.simps) simp
  then have "spi_read tr 1 [] a1 = Some (Inr [hd (fst (fst r))],
      a1\<lparr>port := snd r, log := log a1 @ [Rx [hd (fst (fst r))]]\<rparr>)"
    using ne by (subst spi_read.simps) (simp add: Let_def r_def [symmetric] tk)
  moreover have "spi tr [0x05] 1 a = spi_read tr 1 [] a1"
    using assms(1) by (simp add: spi_def Let_def a1_def reliable_def packet_def)
  ultimately show ?thesis using z by simp
qed

lemma await_idle:
  assumes "reliable tr" "idle tr"
  shows "\<exists>a'. await tr fl flashWIP 0 t a = Some (Inr (), a')"
proof -
  from spi_status_idle [OF assms, of a] obtain s a' where
    "spi tr [0x05] 1 a = Some (Inr [s], a')" "s AND flashWIP = 0"
    by blast
  then have "await_poll tr flashWIP 0 k a = Some (Inr (), a')" for k
    by (cases k) (simp_all add: seq_def)
  then show ?thesis by (simp add: await_def)
qed

lemma writeEnable_total:
  assumes "reliable tr"
  shows "\<exists>a'. writeEnable tr a = Some (Inr (), a')"
  using spi_total [OF assms, of 0 "[0x06]" a] by (auto simp: writeEnable_def seq_def)

lemma erase_sector_total:
  assumes "reliable tr" "idle tr"
  shows "\<exists>a'. erase_sector tr fl address a = Some (Inr (), a')"
proof -
  from writeEnable_total [OF assms(1)] obtain a1 where 1: "writeEnable tr a = Some (Inr (), a1)"
    by blast
  from spi_total [OF assms(1), of 0 "0x20 # addr_bytes address" a1]
  obtain d a2 where 2: "spi tr (0x20 # addr_bytes address) 0 a1 = Some (Inr d, a2)"
    by (auto simp: length_addr_bytes)
  from await_idle [OF assms] obtain a3 where
    3: "await tr fl flashWIP 0 (latency fl) a2 = Some (Inr (), a3)"
    by blast
  from 1 2 3 show ?thesis by (simp add: erase_sector_def seq_def)
qed

lemma program_page_total:
  assumes "reliable tr" "idle tr" "length payload \<le> 8"
  shows "\<exists>a'. program_page tr fl address payload a = Some (Inr (), a')"
proof -
  from writeEnable_total [OF assms(1)] obtain a1 where 1: "writeEnable tr a = Some (Inr (), a1)"
    by blast
  from spi_total [OF assms(1), of 0 "0x02 # addr_bytes address @ payload" a1] assms(3)
  obtain d a2 where 2: "spi tr (0x02 # addr_bytes address @ payload) 0 a1 = Some (Inr d, a2)"
    by (auto simp: length_addr_bytes)
  from await_idle [OF assms(1,2)] obtain a3 where
    3: "await tr fl flashWIP 0 (latency fl) a2 = Some (Inr (), a3)"
    by blast
  from 1 2 3 show ?thesis by (simp add: program_page_def seq_def)
qed

lemma Write_loop_total:
  assumes "reliable tr" "idle tr"
  shows "\<exists>a'. Write_loop tr fl address data offset n a = Some (Inr (), a')"
proof (induction "nat n" arbitrary: address offset n a rule: less_induct)
  case less
  show ?case
  proof (cases "n > 0")
    case False
    then show ?thesis by (simp add: Write_loop.simps)
  next
    case True
    define delta where "delta = write_delta n"
    have delta: "0 < delta" "delta \<le> 8"
      using True by (simp_all add: delta_def write_delta_def Let_def)
    have "\<exists>a1. (if address AND 0xfff = 0 then erase_sector tr fl address a
        else Some (Inr (), a)) = Some (Inr (), a1)"
      using erase_sector_total [OF assms, of fl address a] by (cases "address AND 0xfff = 0") auto
    then obtain a1 where 1: "(if address AND 0xfff = 0 then erase_sector tr fl address a
        else Some (Inr (), a)) = Some (Inr (), a1)"
      by blast
    from delta have "length (take (nat delta) (drop (nat offset) data)) \<le> 8" by simp
    from program_page_total [OF assms this, of fl address a1]
    obtain a2 where
      2: "program_page tr fl address (take (nat delta) (drop (nat offset) data)) a1 = Some (Inr (), a2)"
      by blast
    have "nat (n - delta) < nat n" using delta True by simp
    from less.hyps [OF this, of "int64 (address + delta)" "offset + delta" a2] obtain a' where
      "Write_loop tr fl (int64 (address + delta)) data (offset + delta) (n - delta) a2
         = Some (Inr (), a')"
      by blast
    with 1 2 True show ?thesis
      by (subst Write_loop.simps) (simp add: Let_def delta_def [symmetric] seq_def)
  qed
qed

lemma Write_total:
  assumes "reliable tr" "idle tr"
    and "address AND 0xfff = 0" "0 \<le> address" "address + int (length data) \<le> romSize"
  shows "\<exists>a'. Write tr fl address data a = Some (Inr (), a')"
proof -
  have fit: "address + int (length (pad data)) \<le> romSize"
    using assms(3,5) by (simp add: pad_in_range and_fff_mod)
  with assms(4) have "int64 (address + int (length (pad data))) = address + int (length (pad data))"
    using romSize_sectors(2) by (intro int64_inside) simp_all
  with fit assms(3,4) Write_loop_total [OF assms(1,2)] show ?thesis
    by (simp add: Write_def Let_def)
qed


lemma reliable_quiet: "reliable quiet"
  by (simp add: reliable_def quiet_def)

lemma idle_quiet: "idle quiet"
  by (simp add: idle_def quiet_def flashWIP_def)

lemma port_unit: "(b :: unit QF)\<lparr>port := u\<rparr> = b"
  by (cases b) simp


lemma quiet_steady: "quiet = steady 0"
  by (simp add: quiet_def steady_def)

lemma spi_steady:
  assumes "expect \<le> 16" "length cmds \<le> 16"
  shows "spi (steady b) cmds expect a
           = Some (Inr (replicate expect b),
                   a\<lparr>log := log a @ [Tx (packet cmds expect), Rx (replicate expect b)]\<rparr>)"
proof -
  have full: "spi_read (steady b) expect (replicate expect b) c
      = Some (Inr (replicate expect b), c\<lparr>log := log c @ [Rx (replicate expect b)]\<rparr>)"
    for c :: "unit QF"
    by (subst spi_read.simps) simp
  have "spi_read (steady b) expect [] c
      = Some (Inr (replicate expect b), c\<lparr>log := log c @ [Rx (replicate expect b)]\<rparr>)"
    for c :: "unit QF"
  proof (cases "expect = 0")
    case True
    then show ?thesis by (subst spi_read.simps) simp
  next
    case False
    then show ?thesis
      using full [of c] by (subst spi_read.simps) (simp add: steady_def Let_def port_unit)
  qed
  with assms show ?thesis
    by (simp add: spi_def Let_def packet_def steady_def port_unit)
qed

lemma QF_updates: "a\<lparr>port := p, log := l\<rparr> = \<lparr>port = p, log = l\<rparr>"
  by (cases a) simp

lemma spi_chip:
  assumes "expect \<le> 16" "length cmds \<le> 16" "cmds \<noteq> []"
    and "cmds = [0x9F] \<longrightarrow> expect \<le> length ident"
  shows "spi (chip ident refused) cmds expect a =
     (if hd cmds \<in> set refused
      then Some (Inl WriteNotEnough, \<lparr>port = cmds, log = log a @ [Tx (packet cmds expect)]\<rparr>)
      else Some (Inr (take expect (if cmds = [0x9F] then ident else replicate expect 0)),
                 \<lparr>port = cmds, log = log a @ [Tx (packet cmds expect),
                    Rx (take expect (if cmds = [0x9F] then ident else replicate expect 0))]\<rparr>))"
proof -
  define reply where "reply = take expect (if cmds = [0x9F] then ident else replicate expect 0)"
  have len: "length reply = expect"
    using assms(4) by (simp add: reply_def)
  have full: "spi_read (chip ident refused) expect reply b
      = Some (Inr reply, b\<lparr>log := log b @ [Rx reply]\<rparr>)" for b :: "byte list QF"
    using len by (subst spi_read.simps) simp
  have rd: "spi_read (chip ident refused) expect [] \<lparr>port = cmds, log = l\<rparr>
      = Some (Inr reply, \<lparr>port = cmds, log = l @ [Rx reply]\<rparr>)" for l
  proof (cases "expect = 0")
    case True
    with len show ?thesis by (subst spi_read.simps) simp
  next
    case False
    with len have "reply \<noteq> []" by auto
    with False len show ?thesis
      using full [of "\<lparr>port = cmds, log = l\<rparr>"]
      by (subst spi_read.simps) (simp add: chip_def Let_def reply_def [symmetric])
  qed
  have op: "(header (length cmds) expect @ cmds) ! 5 = hd cmds"
    using assms(3) by (cases cmds) (simp_all add: nth_append length_header)
  show ?thesis
    using assms(1,2) rd [of "log a @ [Tx (packet cmds expect)]"]
    unfolding reply_def [symmetric]
    by (simp add: spi_def Let_def packet_def chip_def op length_header QF_updates)
qed



lemma await_poll_unfold:
  "await_poll tr msk desired k a =
     seq (spi tr [0x05] 1 a) StatusFailed
       (\<lambda>b a. if (b ! 0) AND msk = desired then Some (Inr (), a)
              else (case k of 0 \<Rightarrow> Some (Inl ErrTimedOut, a)
                    | Suc k' \<Rightarrow> await_poll tr msk desired k' a))"
  by (cases k) (simp_all cong: if_cong)

lemma pad_not_Nil: "data \<noteq> [] \<Longrightarrow> pad data \<noteq> []"
  by (simp add: pad_eq)

lemma Write_refused:
  assumes "address AND 0xfff = 0" "0 \<le> address"
    and "int64 (address + int (length (pad data))) \<le> romSize" "data \<noteq> []"
  shows "Write (chip ident [0x20]) fl address data a
           = Some (Inl (EraseFailed address WriteNotEnough),
               \<lparr>port = 0x20 # addr_bytes address,
                log = log a @ [Tx (packet [0x06] 0), Rx [], Tx (packet (0x20 # addr_bytes address) 0)]\<rparr>)"
proof -
  note fit = assms(3)
  have pos: "0 < int (length (pad data))"
    using pad_not_Nil [OF assms(4)] by simp
  have "erase_sector (chip ident [0x20]) fl address a
      = Some (Inl (EraseFailed address WriteNotEnough),
               \<lparr>port = 0x20 # addr_bytes address,
                log = log a @ [Tx (packet [0x06] 0), Rx [], Tx (packet (0x20 # addr_bytes address) 0)]\<rparr>)"
    by (simp add: erase_sector_def writeEnable_def spi_chip seq_def length_addr_bytes)
  with assms(1,2) fit pos show ?thesis
    by (simp add: Write_def Let_def) (subst Write_loop.simps, simp add: seq_def)
qed

subsection \<open>Writing nothing\<close>

text \<open>
  C10. \<^verbatim>\<open>Write\<close> with an empty slice at a sector-aligned address in \<open>[0, romSize]\<close>
  returns \<^verbatim>\<open>nil\<close> and leaves the session as it was: the port is in the same state and
  nothing was added to the log, so no write-enable, erase or program command was issued.
\<close>

theorem Write_empty:
  assumes "address AND 0xfff = 0" "0 \<le> address" "address \<le> romSize"
  shows "Write tr fl address [] a = Some (Inr (), a)"
  using assms by (rule Write_Nil)

theorem Write_empty_witness:
  "(0x1000::int) AND 0xfff = 0 \<and> (0::int) \<le> 0x1000 \<and> 0x1000 \<le> romSize \<and>
   Write quiet default_flags 0x1000 [] \<lparr>port = (), log = []\<rparr>
     = Some (Inr (), \<lparr>port = (), log = []\<rparr>)"
  using Write_empty [of "0x1000" quiet default_flags "\<lparr>port = (), log = []\<rparr>"]
  by (simp add: romSize_def)

subsection \<open>The order of a write\<close>

text \<open>
  C1. A call of \<^verbatim>\<open>Write\<close> at a sector-aligned address with the data inside the device.
  Whatever the port does and however the call ends, the log entries it adds follow
  \<open>write_order\<close> for the padded data (whole when the call succeeds, cut short when it
  fails); so a write-enable, the erase of the sector and a completed wait come before
  the first program of each sector, and each program carries at most 8 bytes between a
  write-enable and a completed wait. The cells programmed are those of the padded data
  from the address upwards, in that order, each once: all of them when the call
  succeeds, a prefix of them when it fails. And on a port that takes every packet and
  answers every status poll with the write-in-progress bit clear the call does return,
  without error: there the whole sequence is issued.
\<close>

theorem Write_order:
  assumes "address AND 0xfff = 0" "0 \<le> address" "address + int (length data) \<le> romSize"
  shows "(\<forall>r a'. Write tr fl address data a = Some (r, a') \<longrightarrow>
            (\<exists>new. log a' = log a @ new \<and>
               write_order (\<not> isl r) address (pad data) new \<and>
               programmed new = take (length (programmed new)) (cells address (pad data)) \<and>
               (\<not> isl r \<longrightarrow> programmed new = cells address (pad data)))) \<and>
         (reliable tr \<and> idle tr \<longrightarrow>
            (\<exists>a' new. Write tr fl address data a = Some (Inr (), a') \<and>
               log a' = log a @ new \<and> write_order True address (pad data) new \<and>
               programmed new = cells address (pad data)))"
proof (intro conjI allI impI)
  fix r a'
  assume "Write tr fl address data a = Some (r, a')"
  from Write_run [OF assms this]
  show "\<exists>new. log a' = log a @ new \<and>
               write_order (\<not> isl r) address (pad data) new \<and>
               programmed new = take (length (programmed new)) (cells address (pad data)) \<and>
               (\<not> isl r \<longrightarrow> programmed new = cells address (pad data))"
    by blast
next
  assume "reliable tr \<and> idle tr"
  then have "reliable tr" "idle tr" by simp_all
  from Write_total [OF this assms] obtain a' where
    w: "Write tr fl address data a = Some (Inr (), a')"
    by blast
  from Write_run [OF assms w] obtain new where
    "log a' = log a @ new" "write_order True address (pad data) new"
    "programmed new = cells address (pad data)"
    by auto
  with w show "\<exists>a' new. Write tr fl address data a = Some (Inr (), a') \<and>
               log a' = log a @ new \<and> write_order True address (pad data) new \<and>
               programmed new = cells address (pad data)"
    by blast
qed

theorem Write_order_witness:
  "(0x1000::int) AND 0xfff = 0 \<and> (0::int) \<le> 0x1000 \<and>
   0x1000 + int (length [0x5A::byte]) \<le> romSize \<and> reliable quiet \<and> idle quiet \<and>
   (\<exists>a' new. Write quiet default_flags 0x1000 [0x5A] \<lparr>port = (), log = []\<rparr> = Some (Inr (), a') \<and>
      log a' = new \<and> write_order True 0x1000 (pad [0x5A]) new \<and>
      programmed new = cells 0x1000 (pad [0x5A]))"
  using Write_order [of "0x1000" "[0x5A]" quiet default_flags "\<lparr>port = (), log = []\<rparr>"]
    reliable_quiet idle_quiet
  by (simp add: romSize_def)

subsection \<open>Padding\<close>

text \<open>
  C6. The data that \<^verbatim>\<open>Write\<close> programs is the input followed by as many bytes \<open>0xff\<close>
  as reach the next multiple of 4096, and by nothing else: these are the cells the
  page-program packets of the call address, from the address upwards (all of them when
  the call succeeds, a prefix when it fails). On a port that takes every packet and
  answers every status poll with the write-in-progress bit clear the call succeeds and
  all of them are programmed; for one input byte they are the byte followed by 4095
  bytes \<open>0xff\<close>, one sector.
\<close>

theorem Write_padding:
  assumes "address AND 0xfff = 0" "0 \<le> address" "address + int (length data) \<le> romSize"
  shows "pad data = data @ replicate ((4096 - length data mod 4096) mod 4096) 0xff \<and>
         length (pad data) mod 4096 = 0 \<and>
         (\<forall>r a'. Write tr fl address data a = Some (r, a') \<longrightarrow>
            (\<exists>new. log a' = log a @ new \<and>
               programmed new
                 = take (length (programmed new))
                     (cells address (data @ replicate ((4096 - length data mod 4096) mod 4096) 0xff)) \<and>
               (\<not> isl r \<longrightarrow> programmed new
                 = cells address (data @ replicate ((4096 - length data mod 4096) mod 4096) 0xff)))) \<and>
         (reliable tr \<and> idle tr \<longrightarrow>
            (\<exists>a' new. Write tr fl address data a = Some (Inr (), a') \<and> log a' = log a @ new \<and>
               programmed new
                 = cells address (data @ replicate ((4096 - length data mod 4096) mod 4096) 0xff))) \<and>
         (\<forall>b. data = [b] \<longrightarrow> reliable tr \<and> idle tr \<longrightarrow>
            (\<exists>a' new. Write tr fl address data a = Some (Inr (), a') \<and> log a' = log a @ new \<and>
               programmed new = cells address (b # replicate 4095 0xff)))"
proof -
  have p: "pad data = data @ replicate ((4096 - length data mod 4096) mod 4096) 0xff"
    by (simp add: pad_eq)
  have l: "length (pad data) mod 4096 = 0"
    by (simp add: length_pad)
  have run: "\<exists>new. log a' = log a @ new \<and>
               programmed new = take (length (programmed new)) (cells address (pad data)) \<and>
               (\<not> isl r \<longrightarrow> programmed new = cells address (pad data))"
    if "Write tr fl address data a = Some (r, a')" for r a'
    using Write_run [OF assms that] by blast
  have full: "\<exists>a' new. Write tr fl address data a = Some (Inr (), a') \<and> log a' = log a @ new \<and>
               programmed new = cells address (pad data)"
    if "reliable tr \<and> idle tr"
  proof -
    from that have "reliable tr" "idle tr" by simp_all
    from Write_total [OF this assms] obtain a' where
      w: "Write tr fl address data a = Some (Inr (), a')"
      by blast
    from Write_run [OF assms w] w show ?thesis by auto
  qed
  have one: "\<exists>a' new. Write tr fl address data a = Some (Inr (), a') \<and> log a' = log a @ new \<and>
               programmed new = cells address (b # replicate 4095 0xff)"
    if "data = [b]" "reliable tr \<and> idle tr" for b
    using full [OF that(2)] that(1) by (simp add: pad_eq)
  from p l run full one show ?thesis
    unfolding p by blast
qed

theorem Write_padding_witness:
  "(0x1000::int) AND 0xfff = 0 \<and> (0::int) \<le> 0x1000 \<and>
   0x1000 + int (length [0x5A::byte]) \<le> romSize \<and> reliable quiet \<and> idle quiet \<and>
   pad [0x5A] = 0x5A # replicate 4095 0xff \<and>
   (\<exists>a'. Write quiet default_flags 0x1000 [0x5A] \<lparr>port = (), log = []\<rparr> = Some (Inr (), a') \<and>
      programmed (log a') = cells 0x1000 (0x5A # replicate 4095 0xff))"
  using Write_padding [of "0x1000" "[0x5A]" quiet default_flags "\<lparr>port = (), log = []\<rparr>"]
    reliable_quiet idle_quiet
  by (simp add: romSize_def)

subsection \<open>The range check of a write\<close>

text \<open>
  As long as the sum of the address and the padded length does not wrap, the check is
  the one on the data as given: at a sector-aligned address that is not negative,
  \<^verbatim>\<open>Write\<close> returns the out-of-range error exactly when the address plus the length of
  the data is above \<open>romSize\<close>, and it returns it with the session untouched.
\<close>

lemma Write_range_exact:
  assumes "0 \<le> address" "address AND 0xfff = 0"
    and "address + int (length (pad data)) < 2 ^ 63"
  shows "(romSize < address + int (length data)
            \<longrightarrow> Write tr fl address data a = Some (Inl WriteOutside, a)) \<and>
         (address + int (length data) \<le> romSize
            \<longrightarrow> (\<forall>a'. Write tr fl address data a \<noteq> Some (Inl WriteOutside, a')))"
proof (intro conjI impI allI)
  have al: "address mod 4096 = 0" using assms(2) by (simp add: and_fff_mod)
  have nowrap: "int64 (address + int (length (pad data))) = address + int (length (pad data))"
    using assms(1,3) by (intro int64_id) simp_all
  {
    assume "romSize < address + int (length data)"
    then have "\<not> address + int (length (pad data)) \<le> romSize"
      using pad_in_range [OF al, of data] by simp
    then show "Write tr fl address data a = Some (Inl WriteOutside, a)"
      using assms by (simp add: Write_def Let_def nowrap)
  next
    fix a'
    assume "address + int (length data) \<le> romSize"
    from Write_run [OF assms(2,1) this]
    show "Write tr fl address data a \<noteq> Some (Inl WriteOutside, a')"
      by blast
  }
qed

lemma Write_range_example:
  "Write quiet default_flags 0x1FF000 (replicate 4097 0) \<lparr>port = (), log = []\<rparr>
     = Some (Inl WriteOutside, \<lparr>port = (), log = []\<rparr>) \<and>
   Write quiet default_flags 0x1FF000 (replicate 4096 0) \<lparr>port = (), log = []\<rparr>
     \<noteq> Some (Inl WriteOutside, \<lparr>port = (), log = []\<rparr>)"
  using Write_range_exact [of "0x1FF000" "replicate 4097 0" quiet default_flags "\<lparr>port = (), log = []\<rparr>"]
    Write_range_exact [of "0x1FF000" "replicate 4096 0" quiet default_flags "\<lparr>port = (), log = []\<rparr>"]
  by (simp add: romSize_def length_pad)


subsection \<open>The requests of a read\<close>

lemma length_concat_replies:
  "list_all2 (\<lambda>req d. int (length d) = snd req) plan ds \<Longrightarrow>
     int (length (concat ds)) = sum_list (map snd plan)"
  by (induction plan ds rule: list_all2_induct) simp_all


lemma Read_run:
  assumes "0 \<le> address" "address + n \<le> romSize" "Read tr address n a = Some (r, a')"
  shows "\<exists>ds. list_all2 (\<lambda>req d. int (length d) = snd req) (take (length ds) (read_plan address n)) ds \<and>
           (case r of
              Inr result \<Rightarrow> length ds = length (read_plan address n) \<and> result = concat ds \<and>
                log a' = log a @ exchanges (read_plan address n) ds
            | Inl e \<Rightarrow> length ds < length (read_plan address n) \<and>
                log a' = log a @ exchanges (read_plan address n) ds
                           @ [Tx (read_packet (read_plan address n ! length ds))])"
proof -
  from assms have "Read_loop tr address n [] a = Some (r, a')"
    by (simp add: Read_def)
  from Read_loop_run [OF this] obtain ds where
    "list_all2 (\<lambda>req d. int (length d) = snd req) (take (length ds) (read_plan address n)) ds"
    "case r of
              Inr res \<Rightarrow> length ds = length (read_plan address n) \<and> res = [] @ concat ds \<and>
                log a' = log a @ exchanges (read_plan address n) ds
            | Inl e \<Rightarrow> length ds < length (read_plan address n) \<and>
                log a' = log a @ exchanges (read_plan address n) ds
                           @ [Tx (read_packet (read_plan address n ! length ds))]"
    by blast
  then show ?thesis
    by (intro exI [of _ ds]) (cases r; simp)
qed

lemma Read_length:
  assumes "0 \<le> address" "0 \<le> n" "address + n \<le> romSize"
    and "Read tr address n a = Some (Inr result, a')"
  shows "int (length result) = n"
proof -
  from Read_run [OF assms(1,3,4)] obtain ds where
    "list_all2 (\<lambda>req d. int (length d) = snd req) (read_plan address n) ds" "result = concat ds"
    by auto
  with length_concat_replies [of "read_plan address n" ds] read_plan_total [OF assms(2), of address]
  show ?thesis by simp
qed





subsection \<open>The read command\<close>






subsection \<open>The metadata codec\<close>

lemma un_le32_le32: "un_le32 (le32 w) = w"
  unfolding un_le32_def le32_def
proof (rule bit_word_eqI)
  fix n assume "n < LENGTH(32)"
  then consider "n < 8" | "8 \<le> n" "n < 16" | "16 \<le> n" "n < 24" | "24 \<le> n" "n < 32"
    by fastforce
  then show "bit (ucast ([ucast w, ucast (drop_bit 8 w), ucast (drop_bit 16 w),
                ucast (drop_bit 24 w) :: byte] ! 0) OR
              push_bit 8 (ucast ([ucast w, ucast (drop_bit 8 w), ucast (drop_bit 16 w),
                ucast (drop_bit 24 w) :: byte] ! 1)) OR
              push_bit 16 (ucast ([ucast w, ucast (drop_bit 8 w), ucast (drop_bit 16 w),
                ucast (drop_bit 24 w) :: byte] ! 2)) OR
              push_bit 24 (ucast ([ucast w, ucast (drop_bit 8 w), ucast (drop_bit 16 w),
                ucast (drop_bit 24 w) :: byte] ! 3)) :: uint32) n = bit w n"
    by cases (auto simp: bit_simps)
qed

text \<open>
  C4. The encoding of a metadata record is 12 bytes: the CRC and the size, each as four
  bytes with the least significant first, then the four single bytes; and decoding the
  encoding gives the record back, whatever its fields hold.
\<close>

theorem metadata_round_trip:
  "length (binary_Write m) = 12 \<and>
   binary_Write m
     = [ucast (CRC m), ucast (drop_bit 8 (CRC m)), ucast (drop_bit 16 (CRC m)),
        ucast (drop_bit 24 (CRC m)),
        ucast (Size m), ucast (drop_bit 8 (Size m)), ucast (drop_bit 16 (Size m)),
        ucast (drop_bit 24 (Size m)),
        Written m, Image m, Purpose m, Reserved m] \<and>
   binary_Read (binary_Write m) = Some m"
  by (simp add: binary_Write_def binary_Read_def le32_def un_le32_le32 [unfolded le32_def])

subsection \<open>The integrity check\<close>

lemma secByName_in_sound:
  "secByName_in secs nm = Inr sec \<Longrightarrow> sec \<in> set secs \<and> name sec = nm"
  by (induction secs) (auto split: if_splits)

lemma sections_bounds:
  "sec \<in> set sections \<Longrightarrow>
     0 \<le> base sec \<and> base sec < limit sec \<and> limit sec \<le> romSize \<and> 0 \<le> meta sec \<and>
     meta sec + 12 \<le> romSize"
  by (auto simp: sections_def romSize_def)

lemma secByName_sound:
  assumes "secByName nm = Inr sec"
  shows "name sec = nm" "0 \<le> base sec" "base sec < limit sec" "limit sec \<le> romSize"
  using secByName_in_sound [OF assms [unfolded secByName_def]] sections_bounds [of sec]
  by simp_all

lemma uint32_of_int_less:
  assumes "0 \<le> k" "k < 2 ^ 32"
  shows "(word_of_int k :: uint32) < w \<longleftrightarrow> k < uint w"
  using assms by (simp add: word_less_def uint_word_of_int take_bit_eq_mod)

text \<open>
  C5. For a region of the catalog whose metadata record has been read: when the size in
  the record is above \<open>limit - base\<close>, \<^verbatim>\<open>validate\<close> returns the invalid-size error and the
  session is the one the metadata read left, so nothing more was read. Otherwise it
  reads from \<open>base\<close> as many bytes as the record says; when that read returns data, the
  data has exactly that many bytes, and \<^verbatim>\<open>validate\<close> returns \<^verbatim>\<open>nil\<close> when the checksum of
  the data equals the stored one and the mismatch error with the computed and the stored
  checksum when it differs; when that read fails, so does \<^verbatim>\<open>validate\<close>.
\<close>

theorem validate_outcomes:
  assumes "secByName nm = Inr sec" and "readMeta tr sec a = Some (Inr m, a1)"
  shows "(limit sec - base sec < uint (Size m) \<longrightarrow>
            validate tr crc32 nm a
              = Some (Inl (InvalidSize nm (Size m) (limit sec - base sec)), a1)) \<and>
         (uint (Size m) \<le> limit sec - base sec \<longrightarrow>
            (\<forall>d a2. Read tr (base sec) (uint (Size m)) a1 = Some (Inr d, a2) \<longrightarrow>
               int (length d) = uint (Size m) \<and>
               validate tr crc32 nm a
                 = Some (if crc32 d = CRC m then Inr ()
                         else Inl (CrcMismatch nm (crc32 d) (CRC m)), a2)) \<and>
            (\<forall>e a2. Read tr (base sec) (uint (Size m)) a1 = Some (Inl e, a2) \<longrightarrow>
               validate tr crc32 nm a = Some (Inl (ReadSectionFailed nm (Size m) e), a2)))"
proof -
  note s = secByName_sound [OF assms(1)]
  have "0 \<le> limit sec - base sec" "limit sec - base sec < 2 ^ 32"
    using s by (simp_all add: romSize_def)
  then have cmp: "(word_of_int (limit sec - base sec) < w) = (limit sec - base sec < uint w)"
    for w :: uint32
    by (rule uint32_of_int_less)
  have v: "validate tr crc32 nm a =
      (if limit sec - base sec < uint (Size m)
       then Some (Inl (InvalidSize nm (Size m) (limit sec - base sec)), a1)
       else seq (Read tr (base sec) (uint (Size m)) a1) (ReadSectionFailed nm (Size m))
              (\<lambda>d a. if crc32 d = CRC m then Some (Inr (), a)
                     else Some (Inl (CrcMismatch nm (crc32 d) (CRC m)), a)))"
    by (simp only: validate_def assms(1) sum.case Let_def cmp s(1))
       (simp add: assms(2) seq_def)
  show ?thesis
  proof (intro conjI impI allI)
    assume "limit sec - base sec < uint (Size m)"
    then show "validate tr crc32 nm a
        = Some (Inl (InvalidSize nm (Size m) (limit sec - base sec)), a1)"
      by (simp add: v)
  next
    fix d a2
    assume le: "uint (Size m) \<le> limit sec - base sec"
      and rd: "Read tr (base sec) (uint (Size m)) a1 = Some (Inr d, a2)"
    from le s have "base sec + uint (Size m) \<le> romSize" by simp
    from Read_length [OF s(2) _ this rd] show "int (length d) = uint (Size m)" by simp
    from le rd show "validate tr crc32 nm a
        = Some (if crc32 d = CRC m then Inr () else Inl (CrcMismatch nm (crc32 d) (CRC m)), a2)"
      by (simp add: v seq_def)
  next
    fix e a2
    assume "uint (Size m) \<le> limit sec - base sec"
      and "Read tr (base sec) (uint (Size m)) a1 = Some (Inl e, a2)"
    then show "validate tr crc32 nm a = Some (Inl (ReadSectionFailed nm (Size m) e), a2)"
      by (simp add: v seq_def)
  qed
qed

lemma secByName_app: "secByName ''app'' = Inr app"
  by (simp add: secByName_def sections_def app_def)

lemma readMeta_steady:
  "readMeta (steady b) app \<lparr>port = (), log = []\<rparr>
     = Some (Inr \<lparr>CRC = un_le32 [b, b, b, b], Size = un_le32 [b, b, b, b],
                  Written = b, Image = b, Purpose = b, Reserved = b\<rparr>,
        \<lparr>port = (), log = [Tx (read_packet (0x13000, 12)), Rx (replicate 12 b)]\<rparr>)"
  by (simp add: readMeta_def app_def binary_Size_def Read_def romSize_def Read_loop.simps
      read_delta_def spi_steady seq_def length_addr_bytes read_packet_def binary_Read_def
      numeral_eq_Suc)

lemma un_le32_ff: "un_le32 [0xff, 0xff, 0xff, 0xff] = 0xffffffff" "un_le32 [0, 0, 0, 0] = 0"
  by (simp_all add: un_le32_def)

theorem validate_outcomes_witness:
  "secByName ''app'' = Inr app \<and>
   readMeta (steady 0xff) app \<lparr>port = (), log = []\<rparr>
     = Some (Inr \<lparr>CRC = 0xffffffff, Size = 0xffffffff,
                  Written = 0xff, Image = 0xff, Purpose = 0xff, Reserved = 0xff\<rparr>,
        \<lparr>port = (), log = [Tx (read_packet (0x13000, 12)), Rx (replicate 12 0xff)]\<rparr>) \<and>
   validate (steady 0xff) (\<lambda>d. 0) ''app'' \<lparr>port = (), log = []\<rparr>
     = Some (Inl (InvalidSize ''app'' 0xffffffff 0x6e000),
        \<lparr>port = (), log = [Tx (read_packet (0x13000, 12)), Rx (replicate 12 0xff)]\<rparr>) \<and>
   Read (steady 0) 0x80000 0 \<lparr>port = (), log = [Tx (read_packet (0x13000, 12)), Rx (replicate 12 0)]\<rparr>
     = Some (Inr [], \<lparr>port = (), log = [Tx (read_packet (0x13000, 12)), Rx (replicate 12 0)]\<rparr>) \<and>
   validate (steady 0) (\<lambda>d. 0) ''app'' \<lparr>port = (), log = []\<rparr>
     = Some (Inr (),
        \<lparr>port = (), log = [Tx (read_packet (0x13000, 12)), Rx (replicate 12 0)]\<rparr>) \<and>
   validate (steady 0) (\<lambda>d. 1) ''app'' \<lparr>port = (), log = []\<rparr>
     = Some (Inl (CrcMismatch ''app'' 1 0),
        \<lparr>port = (), log = [Tx (read_packet (0x13000, 12)), Rx (replicate 12 0)]\<rparr>)"
proof -
  let ?a1 = "\<lambda>b. \<lparr>port = (), log = [Tx (read_packet (0x13000, 12)), Rx (replicate 12 b)]\<rparr>"
  have rd: "Read (steady 0) 0x80000 0 (?a1 0) = Some (Inr [], ?a1 0)"
    by (simp add: Read_def romSize_def Read_loop.simps)
  note m = readMeta_steady [of "0xff", unfolded un_le32_ff] readMeta_steady [of 0, unfolded un_le32_ff]
  from validate_outcomes [OF secByName_app m(1), of "\<lambda>d. 0"]
    validate_outcomes [OF secByName_app m(2), of "\<lambda>d. 0"]
    validate_outcomes [OF secByName_app m(2), of "\<lambda>d. 1"]
    rd m secByName_app
  show ?thesis
    by (simp add: app_def)
qed

subsection \<open>Opening a session\<close>

lemma await_log:
  assumes "await tr fl msk desired t a = Some (r, a')"
  shows "\<exists>new. log a' = log a @ new"
  using await_poll_result [OF assms [unfolded await_def]] by auto

lemma Read_log:
  assumes "Read tr address n a = Some (r, a')"
  shows "\<exists>new. log a' = log a @ new"
proof (cases "address < 0 \<or> address + n > romSize")
  case True
  with assms show ?thesis by (simp add: Read_def)
next
  case False
  with assms have "Read_loop tr address n [] a = Some (r, a')" by (simp add: Read_def)
  from Read_loop_run [OF this] show ?thesis
    by (cases r) auto
qed

lemma list3: "length b = 3 \<Longrightarrow> b = [b ! 0, b ! 1, b ! 2]"
  by (cases b; cases "tl b"; cases "tl (tl b)") auto

lemma reset_tail:
  assumes "seq (spi tr [0xAB] 1 a) id (\<lambda>_ a.
     seq (spi tr [0x9F] 3 a) id (\<lambda>b a.
       if b ! 0 \<noteq> 0xC8 then Some (Inl (BadMID (b ! 0)), a)
       else if b ! 1 \<noteq> 0x40 \<or> b ! 2 \<noteq> 0x15 then Some (Inl (BadDID (b ! 1) (b ! 2)), a)
       else seq (await tr fl 0 0 second a) StatusFailed (\<lambda>_ a.
            (case Read tr 0 16 a of
               None \<Rightarrow> None
             | Some (_, a) \<Rightarrow> Some (Inr (), a))))) = Some (r, a')"
  shows "(isl r \<and> log a' = log a @ [Tx (packet [0xAB] 1)]) \<or>
         (isl r \<and> (\<exists>w. log a' = log a @ [Tx (packet [0xAB] 1), Rx w, Tx (packet [0x9F] 3)])) \<or>
         (\<exists>w b post. length b = 3 \<and>
            log a' = log a @ [Tx (packet [0xAB] 1), Rx w, Tx (packet [0x9F] 3), Rx b] @ post \<and>
            (if b \<noteq> [0xC8, 0x40, 0x15]
             then r = Inl (if b ! 0 \<noteq> 0xC8 then BadMID (b ! 0) else BadDID (b ! 1) (b ! 2)) \<and>
                  post = []
             else True))"
  using assms
proof (cases rule: seqE)
  case (fail e)
  with spi_result [OF fail(1)] show ?thesis by simp
next
  case wake: (ok w a1)
  from spi_result [OF wake(1)] have l1: "log a1 = log a @ [Tx (packet [0xAB] 1), Rx w]" by simp
  from wake(2) show ?thesis
  proof (cases rule: seqE)
    case (fail e)
    with spi_result [OF fail(1)] l1 show ?thesis by auto
  next
    case id: (ok b a2)
    from spi_result [OF id(1)] l1 have b: "length b = 3"
      and l2: "log a2 = log a @ [Tx (packet [0xAB] 1), Rx w, Tx (packet [0x9F] 3), Rx b]"
      by simp_all
    show ?thesis
    proof (cases "b = [0xC8, 0x40, 0x15]")
      case True
      with id(2) have "seq (await tr fl 0 0 second a2) StatusFailed (\<lambda>_ a.
            (case Read tr 0 16 a of
               None \<Rightarrow> None
             | Some (_, a) \<Rightarrow> Some (Inr (), a))) = Some (r, a')"
        by simp
      then have "\<exists>post. log a' = log a2 @ post"
      proof (cases rule: seqE)
        case (fail e)
        with await_log [OF fail(1)] show ?thesis by simp
      next
        case (ok x a3)
        from await_log [OF ok(1)] obtain n1 where n1: "log a3 = log a2 @ n1" by blast
        from ok(2) obtain r4 where "Read tr 0 16 a3 = Some (r4, a')"
          by (auto split: option.splits)
        from Read_log [OF this] n1 show ?thesis by auto
      qed
      then obtain post where "log a' = log a2 @ post" by blast
      with l2 b True show ?thesis
        by (intro disjI2 exI [of _ w] exI [of _ b] exI [of _ post]) simp
    next
      case False
      with list3 [OF b] have "b ! 0 \<noteq> 0xC8 \<or> b ! 1 \<noteq> 0x40 \<or> b ! 2 \<noteq> 0x15"
        by auto
      with id(2) have "r = Inl (if b ! 0 \<noteq> 0xC8 then BadMID (b ! 0) else BadDID (b ! 1) (b ! 2))"
        "a' = a2"
        by (auto split: if_splits)
      with l2 b False show ?thesis
        by (intro disjI2 exI [of _ w] exI [of _ b] exI [of _ "[]"]) simp
    qed
  qed
qed

lemma reset_cases:
  assumes "reset tr fl a = Some (r, a')"
  shows "(reset_flag fl \<and> isl r \<and> log a' = log a @ [Tx (packet [0x66] 0)]) \<or>
         (reset_flag fl \<and> isl r \<and>
            log a' = log a @ [Tx (packet [0x66] 0), Rx [], Tx (packet [0x99] 0)]) \<or>
         (isl r \<and> log a' = log a @ prelude fl @ [Tx (packet [0xAB] 1)]) \<or>
         (isl r \<and> (\<exists>w. log a' = log a @ prelude fl
                            @ [Tx (packet [0xAB] 1), Rx w, Tx (packet [0x9F] 3)])) \<or>
         (\<exists>w b post. length b = 3 \<and>
            log a' = log a @ prelude fl
                       @ [Tx (packet [0xAB] 1), Rx w, Tx (packet [0x9F] 3), Rx b] @ post \<and>
            (if b \<noteq> [0xC8, 0x40, 0x15]
             then r = Inl (if b ! 0 \<noteq> 0xC8 then BadMID (b ! 0) else BadDID (b ! 1) (b ! 2)) \<and>
                  post = []
             else True))"
  using assms [unfolded reset_def]
proof (cases rule: seqE)
  case (fail e)
  then have fl: "reset_flag fl" by (auto split: if_splits)
  with fail(1) have "seq (spi tr [0x66] 0 a) (\<lambda>_. ResetEnableFailed) (\<lambda>_ a.
               seq (spi tr [0x99] 0 a) (\<lambda>_. ResetFailed) (\<lambda>_ a. Some (Inr (), a)))
       = Some (Inl e, a')"
    by simp
  then show ?thesis
  proof (cases rule: seqE)
    case f1: (fail e1)
    with spi_cmd_result [OF f1(1)] fl fail(2) show ?thesis by simp
  next
    case o1: (ok x a1)
    from spi_cmd_result [OF o1(1)] have l1: "log a1 = log a @ [Tx (packet [0x66] 0), Rx []]"
      by simp
    from o1(2) show ?thesis
    proof (cases rule: seqE)
      case f2: (fail e2)
      with spi_cmd_result [OF f2(1)] fl fail(2) l1 show ?thesis by simp
    next
      case (ok y a2)
      then show ?thesis by simp
    qed
  qed
next
  case (ok x a1)
  have "log a1 = log a @ prelude fl"
  proof (cases "reset_flag fl")
    case False
    with ok(1) show ?thesis by (simp add: prelude_def)
  next
    case True
    with ok(1) have "seq (spi tr [0x66] 0 a) (\<lambda>_. ResetEnableFailed) (\<lambda>_ a.
               seq (spi tr [0x99] 0 a) (\<lambda>_. ResetFailed) (\<lambda>_ a. Some (Inr (), a)))
       = Some (Inr x, a1)"
      by simp
    then show ?thesis
    proof (cases rule: seqE)
      case (fail e)
      then show ?thesis by simp
    next
      case o1: (ok y b1)
      from spi_cmd_result [OF o1(1)] have l1: "log b1 = log a @ [Tx (packet [0x66] 0), Rx []]"
        by simp
      from o1(2) show ?thesis
      proof (cases rule: seqE)
        case (fail e)
        then show ?thesis by simp
      next
        case o2: (ok z b2)
        with spi_cmd_result [OF o2(1)] l1 True show ?thesis
          by (simp add: prelude_def)
      qed
    qed
  qed
  with reset_tail [OF ok(2)] show ?thesis by simp
qed

text \<open>
  C9. A session that \<^verbatim>\<open>NewQF\<close> returns has asked the device for its JEDEC ID, after the
  optional reset and the wake-up, and the reply was \<open>0xC8, 0x40, 0x15\<close>. And whenever
  \<^verbatim>\<open>reset\<close> on the fresh session got another reply to that request, \<^verbatim>\<open>NewQF\<close> returns
  no session but the error that names the bytes that differ.
\<close>

theorem open_identity:
  "(\<forall>qf. NewQF tr fl opened = Some (Inr qf) \<longrightarrow>
      (\<exists>w post. log qf = prelude fl @ [Tx (packet [0xAB] 1), Rx w,
                                      Tx (packet [0x9F] 3), Rx [0xC8, 0x40, 0x15]] @ post)) \<and>
   (\<forall>t r a' w b post.
      opened = Some t \<longrightarrow> reset tr fl \<lparr>port = t, log = []\<rparr> = Some (r, a') \<longrightarrow>
      log a' = prelude fl @ [Tx (packet [0xAB] 1), Rx w, Tx (packet [0x9F] 3), Rx b] @ post \<longrightarrow>
      b \<noteq> [0xC8, 0x40, 0x15] \<longrightarrow>
      NewQF tr fl opened
        = Some (Inl (if b ! 0 \<noteq> 0xC8 then BadMID (b ! 0) else BadDID (b ! 1) (b ! 2))))"
proof (intro conjI allI impI)
  fix qf assume "NewQF tr fl opened = Some (Inr qf)"
  then obtain t x where "reset tr fl \<lparr>port = t, log = []\<rparr> = Some (Inr x, qf)"
    by (auto simp: NewQF_def split: option.splits sum.splits)
  from reset_cases [OF this]
  obtain w b post where "log qf = log \<lparr>port = t, log = []\<rparr> @ prelude fl
                       @ [Tx (packet [0xAB] 1), Rx w, Tx (packet [0x9F] 3), Rx b] @ post"
    and "if b \<noteq> [0xC8, 0x40, 0x15]
         then Inr x = Inl (if b ! 0 \<noteq> 0xC8 then BadMID (b ! 0) else BadDID (b ! 1) (b ! 2)) \<and>
              post = []
         else True"
    by (elim disjE conjE exE) simp_all
  then have "log qf = prelude fl @ [Tx (packet [0xAB] 1), Rx w,
                                      Tx (packet [0x9F] 3), Rx [0xC8, 0x40, 0x15]] @ post"
    by (cases "b = [0xC8, 0x40, 0x15]") simp_all
  then show "\<exists>w post. log qf = prelude fl @ [Tx (packet [0xAB] 1), Rx w,
                                      Tx (packet [0x9F] 3), Rx [0xC8, 0x40, 0x15]] @ post"
    by blast
next
  fix t r a' w b post
  assume t: "opened = Some t" and run: "reset tr fl \<lparr>port = t, log = []\<rparr> = Some (r, a')"
    and lg: "log a' = prelude fl @ [Tx (packet [0xAB] 1), Rx w, Tx (packet [0x9F] 3), Rx b] @ post"
    and b: "b \<noteq> [0xC8, 0x40, 0x15]"
  from reset_cases [OF run]
  have "r = Inl (if b ! 0 \<noteq> 0xC8 then BadMID (b ! 0) else BadDID (b ! 1) (b ! 2))"
  proof (elim disjE conjE exE)
    assume "reset_flag fl" "log a' = log \<lparr>port = t, log = []\<rparr> @ [Tx (packet [0x66] 0)]"
    with lg show ?thesis by (simp add: prelude_def)
  next
    assume "reset_flag fl"
      "log a' = log \<lparr>port = t, log = []\<rparr> @ [Tx (packet [0x66] 0), Rx [], Tx (packet [0x99] 0)]"
    with lg show ?thesis by (simp add: prelude_def)
  next
    assume "log a' = log \<lparr>port = t, log = []\<rparr> @ prelude fl @ [Tx (packet [0xAB] 1)]"
    with lg show ?thesis by simp
  next
    fix w' assume "log a' = log \<lparr>port = t, log = []\<rparr> @ prelude fl
                            @ [Tx (packet [0xAB] 1), Rx w', Tx (packet [0x9F] 3)]"
    with lg show ?thesis by simp
  next
    fix w' b' post'
    assume "log a' = log \<lparr>port = t, log = []\<rparr> @ prelude fl
                       @ [Tx (packet [0xAB] 1), Rx w', Tx (packet [0x9F] 3), Rx b'] @ post'"
      and c: "if b' \<noteq> [0xC8, 0x40, 0x15]
             then r = Inl (if b' ! 0 \<noteq> 0xC8 then BadMID (b' ! 0) else BadDID (b' ! 1) (b' ! 2)) \<and>
                  post' = []
             else True"
    with lg have "b' = b" by simp
    with c b show ?thesis by simp
  qed
  with t run show "NewQF tr fl opened
        = Some (Inl (if b ! 0 \<noteq> 0xC8 then BadMID (b ! 0) else BadDID (b ! 1) (b ! 2)))"
    by (simp add: NewQF_def)
qed

lemma reset_chip_good:
  assumes "\<not> reset_flag fl" "set refused \<inter> {0xAB, 0x9F, 0x05, 0x0B} = {}"
  shows "reset (chip [0xC8, 0x40, 0x15] refused) fl \<lparr>port = [], log = []\<rparr> =
     Some (Inr (),
        \<lparr>port = [0x0B, 0, 0, 0, 0],
         log = [Tx (packet [0xAB] 1), Rx [0], Tx (packet [0x9F] 3), Rx [0xC8, 0x40, 0x15],
                Tx poll, Rx [0], Tx (read_packet (0, 16)), Rx (replicate 16 0)]\<rparr>)"
  using assms
  by (simp add: reset_def spi_chip seq_def await_def second_def
      await_poll_unfold [of _ _ _ 100] Read_def romSize_def Read_loop.simps read_delta_def
      length_addr_bytes addr_bytes_def poll_def read_packet_def)

lemma reset_chip_wrong:
  "reset (chip [0xC8, 0x41, 0x15] []) default_flags \<lparr>port = [], log = []\<rparr> =
     Some (Inl (BadDID 0x41 0x15),
        \<lparr>port = [0x9F],
         log = [Tx (packet [0xAB] 1), Rx [0], Tx (packet [0x9F] 3), Rx [0xC8, 0x41, 0x15]]\<rparr>)"
  by (simp add: reset_def default_flags_def spi_chip seq_def)

theorem open_identity_witness:
  "NewQF (chip [0xC8, 0x40, 0x15] []) default_flags (Some [])
     = Some (Inr \<lparr>port = [0x0B, 0, 0, 0, 0],
         log = [Tx (packet [0xAB] 1), Rx [0], Tx (packet [0x9F] 3), Rx [0xC8, 0x40, 0x15],
                Tx poll, Rx [0], Tx (read_packet (0, 16)), Rx (replicate 16 0)]\<rparr>) \<and>
   prelude default_flags = [] \<and>
   reset (chip [0xC8, 0x41, 0x15] []) default_flags \<lparr>port = [], log = []\<rparr> =
     Some (Inl (BadDID 0x41 0x15),
        \<lparr>port = [0x9F],
         log = [Tx (packet [0xAB] 1), Rx [0], Tx (packet [0x9F] 3), Rx [0xC8, 0x41, 0x15]]\<rparr>) \<and>
   NewQF (chip [0xC8, 0x41, 0x15] []) default_flags (Some []) = Some (Inl (BadDID 0x41 0x15))"
  using open_identity [of "chip [0xC8, 0x40, 0x15] []" default_flags "Some []"]
    open_identity [of "chip [0xC8, 0x41, 0x15] []" default_flags "Some []"]
    reset_chip_good [of default_flags "[]"] reset_chip_wrong
  by (simp add: NewQF_def prelude_def default_flags_def)

subsection \<open>The protect boundary\<close>

lemma length_binary_Write: "length (binary_Write m) = 12"
  by (simp add: binary_Write_def le32_def)

lemma secByName_in_set: "secByName_in secs nm = Inr sec \<Longrightarrow> sec \<in> set secs"
  by (induction secs) (auto split: if_splits)

lemma catalog:
  "\<forall>sec \<in> set sections. base sec < limit sec \<and> limit sec \<le> romSize \<and> meta sec \<noteq> 0 \<and>
     meta sec mod 4096 = 0 \<and> 0 \<le> meta sec \<and> meta sec + 12 \<le> romSize"
  by (simp add: sections_def romSize_def)

lemma secByName_catalog:
  assumes "secByName nm = Inr sec"
  shows "base sec < limit sec" "limit sec \<le> romSize" "meta sec \<noteq> 0"
    "meta sec AND 0xfff = 0" "0 \<le> meta sec" "meta sec + 12 \<le> romSize"
  using secByName_in_set [of sections nm sec] assms catalog
  by (auto simp: secByName_def and_fff_mod)

lemma writeMeta_seq:
  "seq (writeMeta tr fl sec m a) id (\<lambda>_ a. Some (Inr Done, a))
     = seq (Write tr fl (meta sec) (binary_Write m) a)
         (\<lambda>e. Fatal (FatalWriteMeta (name sec) e)) (\<lambda>_ a. Some (Inr Done, a))"
  by (simp add: writeMeta_def Let_def length_binary_Write seq_def
      split: option.splits sum.splits prod.splits)

lemma seq_Inr: "m = Some (Inr x, a) \<Longrightarrow> seq m w k = k x a"
  by (simp add: seq_def)

lemma main_session_disable:
  assumes "\<not> layout fl" "\<not> check_flag fl" "sect fl \<noteq> []" "secByName (sect fl) = Inr sec"
    and "disable fl"
  shows "main_session tr fl fs crc32 a =
     (if base sec < protect fl then Some (Inl (Fatal FatalProtectedSection), a)
      else seq (Write tr fl (meta sec)
                  (binary_Write \<lparr>CRC = NOT 0, Size = NOT 0, Written = PresentEmpty,
                     Image = image sec, Purpose = purpose sec, Reserved = 0xff\<rparr>) a)
             (\<lambda>e. Fatal (FatalWriteMeta (name sec) e)) (\<lambda>_ a. Some (Inr Done, a)))"
  using assms by (simp add: main_session_def Let_def writeMeta_seq)

lemma main_session_write:
  assumes "\<not> layout fl" "\<not> check_flag fl" "rd fl = []" "wr fl \<noteq> []"
    and "sect fl \<noteq> []" "secByName (sect fl) = Inr sec" "\<not> disable fl"
    and "protect fl \<le> base sec" "ReadFile fs (wr fl) = Some d0"
    and "0 \<le> skip fl" "skip fl \<le> int (length d0)"
    and "int (length (drop (nat (skip fl)) d0)) + base sec \<le> limit sec"
    and "Write tr fl (base sec) (drop (nat (skip fl)) d0) a = Some (Inr (), a1)"
  shows "main_session tr fl fs crc32 a =
     seq (Write tr fl (meta sec)
            (binary_Write \<lparr>CRC = crc32 (drop (nat (skip fl)) d0),
               Size = of_nat (length (drop (nat (skip fl)) d0)), Written = PresentWritten,
               Image = image sec, Purpose = purpose sec, Reserved = 0xff\<rparr>) a1)
       (\<lambda>e. Fatal (FatalWriteMeta (name sec) e)) (\<lambda>_ a. Some (Inr Done, a))"
proof -
  note c = secByName_catalog [OF assms(6)]
  define d where "d = drop (nat (skip fl)) d0"
  have d: "(if skip fl \<noteq> 0 then drop (nat (skip fl)) d0 else d0) = d"
    by (simp add: d_def)
  have fit: "\<not> limit sec < int (length d) + base sec" "\<not> base sec < protect fl"
    "\<not> limit sec \<le> base sec" "\<not> romSize < limit sec" "\<not> int (length d0) < skip fl"
    "\<not> skip fl < 0"
    using assms c by (simp_all add: d_def)
  have w: "Write tr fl (base sec) d a = Some (Inr (), a1)"
    using assms(13) by (simp add: d_def)
  show ?thesis
    unfolding d_def [symmetric]
    using assms(1-7,9) c(3) fit
    by (simp add: main_session_def main_write_def Let_def d seq_Inr [OF w] writeMeta_seq)
qed

lemma main_session_write_protected:
  assumes "\<not> layout fl" "\<not> check_flag fl" "rd fl = []" "wr fl \<noteq> []"
  shows "(sect fl = [] \<longrightarrow> addrArg fl < protect fl \<longrightarrow>
            (\<exists>f. main_session tr fl fs crc32 a = Some (Inl (Fatal f), a))) \<and>
         (\<forall>sec. sect fl \<noteq> [] \<longrightarrow> secByName (sect fl) = Inr sec \<longrightarrow> \<not> disable fl \<longrightarrow>
            base sec < protect fl \<longrightarrow>
            (\<exists>f. main_session tr fl fs crc32 a = Some (Inl (Fatal f), a)))"
  using assms
  by (auto simp: main_session_def main_write_def Let_def split: option.splits)

lemma meta_write_total:
  assumes "secByName nm = Inr sec" "reliable tr" "idle tr"
  shows "\<exists>new. meta_write tr fl sec m a = Some (Inr Done, log a @ new) \<and>
           write_order True (meta sec) (pad (binary_Write m)) new \<and>
           programmed new = cells (meta sec) (pad (binary_Write m))"
proof -
  note c = secByName_catalog [OF assms(1)]
  have fit: "meta sec + int (length (binary_Write m)) \<le> romSize"
    using c(6) by (simp add: length_binary_Write)
  from Write_total [OF assms(2,3) c(4,5) fit] obtain a' where
    w: "Write tr fl (meta sec) (binary_Write m) a = Some (Inr (), a')"
    by blast
  from Write_run [OF c(4,5) fit w] obtain new where
    "log a' = log a @ new" "write_order True (meta sec) (pad (binary_Write m)) new"
    "programmed new = cells (meta sec) (pad (binary_Write m))"
    by auto
  with w show ?thesis
    by (simp add: meta_write_def)
qed

lemma main_meta_write:
  assumes "NewQF tr fl opened = Some (Inr qf)"
    and "main_session tr fl fs crc32 qf
      = seq (Write tr fl (meta sec) (binary_Write m) a)
          (\<lambda>e. Fatal (FatalWriteMeta (name sec) e)) (\<lambda>_ a. Some (Inr Done, a))"
  shows "main tr fl fs crc32 opened = meta_write tr fl sec m a"
  using assms
  by (simp add: main_def meta_write_def seq_def split: option.splits sum.splits prod.splits)

text \<open>
  C3, as the claim states it, fails. With the default boundary \<open>0x40000\<close>, on a chip of
  the supported family whose port refuses the sector-erase packet: disabling the section
  \<open>app\<close>, and writing an empty file to it, both pass the check (the base \<open>0x80000\<close> of the
  section is not below the boundary) and then call \<^verbatim>\<open>Write\<close> at the metadata address
  \<open>0x13000\<close>, below the boundary: the last packet of the log is the sector erase at
  \<open>0x013000\<close>, which the port refused.
\<close>

theorem protect_counterexample:
  "main (chip [0xC8, 0x40, 0x15] [0x20]) (default_flags\<lparr>sect := ''app'', disable := True\<rparr>)
       empty_files (\<lambda>d. 0) (Some [])
     = Some (Inl (Fatal (FatalWriteMeta ''app'' (EraseFailed 0x13000 WriteNotEnough))),
         [Tx (packet [0xAB] 1), Rx [0], Tx (packet [0x9F] 3), Rx [0xC8, 0x40, 0x15],
          Tx poll, Rx [0], Tx (read_packet (0, 16)), Rx (replicate 16 0),
          Tx (packet [0x06] 0), Rx [], Tx (packet [0x20, 0x01, 0x30, 0x00] 0)]) \<and>
   main (chip [0xC8, 0x40, 0x15] [0x20]) (default_flags\<lparr>sect := ''app'', wr := ''app.bin''\<rparr>)
       empty_files (\<lambda>d. 0) (Some [])
     = Some (Inl (Fatal (FatalWriteMeta ''app'' (EraseFailed 0x13000 WriteNotEnough))),
         [Tx (packet [0xAB] 1), Rx [0], Tx (packet [0x9F] 3), Rx [0xC8, 0x40, 0x15],
          Tx poll, Rx [0], Tx (read_packet (0, 16)), Rx (replicate 16 0),
          Tx (packet [0x06] 0), Rx [], Tx (packet [0x20, 0x01, 0x30, 0x00] 0)]) \<and>
   (0x13000 :: int) < protect default_flags"
proof -
  have ab: "addr_bytes 0x13000 = [0x01, 0x30, 0x00]"
    by (simp add: addr_bytes_def)
  have w: "Write (chip [0xC8, 0x40, 0x15] [0x20]) fl 0x13000 d a
      = Some (Inl (EraseFailed 0x13000 WriteNotEnough),
               \<lparr>port = [0x20, 0x01, 0x30, 0x00],
                log = log a @ [Tx (packet [0x06] 0), Rx [], Tx (packet [0x20, 0x01, 0x30, 0x00] 0)]\<rparr>)"
    if "length d = 12" for fl d a
    using Write_refused [of "0x13000" d "[0xC8, 0x40, 0x15]" fl a] that
    by (cases d) (simp_all add: ab romSize_def length_pad int64_def)
  have e: "Write tr fl 0x80000 [] a = Some (Inr (), a)" for tr :: "byte list transport" and fl a
    by (rule Write_Nil) (simp_all add: romSize_def)
  show ?thesis
    by (simp add: main_def NewQF_def reset_chip_good default_flags_def main_session_def
        secByName_def sections_def writeMeta_def w e main_write_def empty_files_def seq_def
        binary_Write_def le32_def romSize_def)
qed

lemma main_protected_examples:
  "main (chip [0xC8, 0x40, 0x15] []) (default_flags\<lparr>sect := ''bootfpga'', wr := ''x.bin''\<rparr>)
       empty_files (\<lambda>d. 0) (Some [])
     = Some (Inl (Fatal (FatalWriteProtection 0x40000 0x20000)),
         [Tx (packet [0xAB] 1), Rx [0], Tx (packet [0x9F] 3), Rx [0xC8, 0x40, 0x15],
          Tx poll, Rx [0], Tx (read_packet (0, 16)), Rx (replicate 16 0)]) \<and>
   main (chip [0xC8, 0x40, 0x15] []) (default_flags\<lparr>sect := ''bootfpga'', disable := True\<rparr>)
       empty_files (\<lambda>d. 0) (Some [])
     = Some (Inl (Fatal FatalProtectedSection),
         [Tx (packet [0xAB] 1), Rx [0], Tx (packet [0x9F] 3), Rx [0xC8, 0x40, 0x15],
          Tx poll, Rx [0], Tx (read_packet (0, 16)), Rx (replicate 16 0)]) \<and>
   main (chip [0xC8, 0x40, 0x15] []) (default_flags\<lparr>addrArg := 0x1000, wr := ''x.bin''\<rparr>)
       empty_files (\<lambda>d. 0) (Some [])
     = Some (Inl (Fatal (FatalWriteProtection 0x40000 0x1000)),
         [Tx (packet [0xAB] 1), Rx [0], Tx (packet [0x9F] 3), Rx [0xC8, 0x40, 0x15],
          Tx poll, Rx [0], Tx (read_packet (0, 16)), Rx (replicate 16 0)])"
  by (simp add: main_def NewQF_def reset_chip_good default_flags_def main_session_def
        secByName_def sections_def main_write_def empty_files_def romSize_def)

text \<open>
  C3 as amended. In a run that is neither a layout listing nor a check, what is compared
  with the protect boundary is the base address of the operation: the base of the named
  section, or \<^verbatim>\<open>--addr\<close> when no section is named. A disable of a section whose base is
  below the boundary, and a write whose base address is below it, end in a fatal error
  with the log of the session as the opening left it: no command was sent, so no
  \<^verbatim>\<open>Write\<close> was begun. When the base is not below the boundary the metadata write is
  made without another comparison: a disable is exactly the \<^verbatim>\<open>Write\<close> of the cleared
  record at the metadata address of the section, and a write to a section whose data
  \<^verbatim>\<open>Write\<close> succeeded goes on with the \<^verbatim>\<open>Write\<close> of the new record at that address. On
  a port that takes every packet and answers every status poll with the
  write-in-progress bit clear, that metadata write erases and programs the sector at
  the metadata address, wherever the boundary is.
\<close>

theorem protect_check:
  assumes "\<not> layout fl" "\<not> check_flag fl" "NewQF tr fl opened = Some (Inr qf)"
  shows "(\<forall>sec. sect fl \<noteq> [] \<longrightarrow> secByName (sect fl) = Inr sec \<longrightarrow> disable fl \<longrightarrow>
            main tr fl fs crc32 opened =
              (if base sec < protect fl then Some (Inl (Fatal FatalProtectedSection), log qf)
               else meta_write tr fl sec
                      \<lparr>CRC = NOT 0, Size = NOT 0, Written = PresentEmpty,
                       Image = image sec, Purpose = purpose sec, Reserved = 0xff\<rparr> qf)) \<and>
         (rd fl = [] \<longrightarrow> wr fl \<noteq> [] \<longrightarrow> sect fl = [] \<longrightarrow> addrArg fl < protect fl \<longrightarrow>
            (\<exists>f. main tr fl fs crc32 opened = Some (Inl (Fatal f), log qf))) \<and>
         (\<forall>sec. rd fl = [] \<longrightarrow> wr fl \<noteq> [] \<longrightarrow> sect fl \<noteq> [] \<longrightarrow>
            secByName (sect fl) = Inr sec \<longrightarrow> \<not> disable fl \<longrightarrow> base sec < protect fl \<longrightarrow>
            (\<exists>f. main tr fl fs crc32 opened = Some (Inl (Fatal f), log qf))) \<and>
         (\<forall>sec d a1. rd fl = [] \<longrightarrow> wr fl \<noteq> [] \<longrightarrow> sect fl \<noteq> [] \<longrightarrow>
            secByName (sect fl) = Inr sec \<longrightarrow> \<not> disable fl \<longrightarrow> protect fl \<le> base sec \<longrightarrow>
            ReadFile fs (wr fl) = Some d \<longrightarrow> 0 \<le> skip fl \<longrightarrow> skip fl \<le> int (length d) \<longrightarrow>
            int (length (drop (nat (skip fl)) d)) + base sec \<le> limit sec \<longrightarrow>
            Write tr fl (base sec) (drop (nat (skip fl)) d) qf = Some (Inr (), a1) \<longrightarrow>
            main tr fl fs crc32 opened =
              meta_write tr fl sec
                \<lparr>CRC = crc32 (drop (nat (skip fl)) d),
                 Size = of_nat (length (drop (nat (skip fl)) d)), Written = PresentWritten,
                 Image = image sec, Purpose = purpose sec, Reserved = 0xff\<rparr> a1) \<and>
         (\<forall>sec m a. secByName (sect fl) = Inr sec \<longrightarrow> reliable tr \<and> idle tr \<longrightarrow>
            (\<exists>new. meta_write tr fl sec m a = Some (Inr Done, log a @ new) \<and>
               write_order True (meta sec) (pad (binary_Write m)) new \<and>
               programmed new = cells (meta sec) (pad (binary_Write m))))"
proof (intro conjI allI impI)
  fix sec
  assume h: "sect fl \<noteq> []" "secByName (sect fl) = Inr sec" "disable fl"
  show "main tr fl fs crc32 opened =
              (if base sec < protect fl then Some (Inl (Fatal FatalProtectedSection), log qf)
               else meta_write tr fl sec
                      \<lparr>CRC = NOT 0, Size = NOT 0, Written = PresentEmpty,
                       Image = image sec, Purpose = purpose sec, Reserved = 0xff\<rparr> qf)"
  proof (cases "base sec < protect fl")
    case True
    with main_session_disable [OF assms(1,2) h, of tr fs crc32 qf] assms(3) show ?thesis
      by (simp add: main_def)
  next
    case False
    with main_session_disable [OF assms(1,2) h, of tr fs crc32 qf]
      main_meta_write [OF assms(3), of fs crc32 sec _ qf]
    show ?thesis by simp
  qed
next
  assume "rd fl = []" "wr fl \<noteq> []" "sect fl = []" "addrArg fl < protect fl"
  with main_session_write_protected [OF assms(1,2), of tr fs crc32 qf] assms(3)
  show "\<exists>f. main tr fl fs crc32 opened = Some (Inl (Fatal f), log qf)"
    by (auto simp: main_def)
next
  fix sec
  assume "rd fl = []" "wr fl \<noteq> []" "sect fl \<noteq> []" "secByName (sect fl) = Inr sec"
    "\<not> disable fl" "base sec < protect fl"
  with main_session_write_protected [OF assms(1,2), of tr fs crc32 qf] assms(3)
  show "\<exists>f. main tr fl fs crc32 opened = Some (Inl (Fatal f), log qf)"
    by (auto simp: main_def)
next
  fix sec d a1
  assume h: "rd fl = []" "wr fl \<noteq> []" "sect fl \<noteq> []" "secByName (sect fl) = Inr sec"
    "\<not> disable fl" "protect fl \<le> base sec" "ReadFile fs (wr fl) = Some d" "0 \<le> skip fl"
    "skip fl \<le> int (length d)" "int (length (drop (nat (skip fl)) d)) + base sec \<le> limit sec"
    "Write tr fl (base sec) (drop (nat (skip fl)) d) qf = Some (Inr (), a1)"
  from main_meta_write [OF assms(3) main_session_write [OF assms(1,2) h, of crc32]]
  show "main tr fl fs crc32 opened =
              meta_write tr fl sec
                \<lparr>CRC = crc32 (drop (nat (skip fl)) d),
                 Size = of_nat (length (drop (nat (skip fl)) d)), Written = PresentWritten,
                 Image = image sec, Purpose = purpose sec, Reserved = 0xff\<rparr> a1" .
next
  fix sec m a
  assume "secByName (sect fl) = Inr sec" "reliable tr \<and> idle tr"
  then show "\<exists>new. meta_write tr fl sec m a = Some (Inr Done, log a @ new) \<and>
               write_order True (meta sec) (pad (binary_Write m)) new \<and>
               programmed new = cells (meta sec) (pad (binary_Write m))"
    using meta_write_total [of "sect fl" sec tr fl m a] by simp
qed

theorem protect_check_witness:
  "\<not> layout (default_flags\<lparr>sect := ''app'', disable := True\<rparr>) \<and>
   \<not> check_flag (default_flags\<lparr>sect := ''app'', disable := True\<rparr>) \<and>
   NewQF (chip [0xC8, 0x40, 0x15] [0x20]) (default_flags\<lparr>sect := ''app'', disable := True\<rparr>) (Some [])
     = Some (Inr \<lparr>port = [0x0B, 0, 0, 0, 0],
         log = [Tx (packet [0xAB] 1), Rx [0], Tx (packet [0x9F] 3), Rx [0xC8, 0x40, 0x15],
                Tx poll, Rx [0], Tx (read_packet (0, 16)), Rx (replicate 16 0)]\<rparr>) \<and>
   secByName ''app'' = Inr app \<and> \<not> base app < protect default_flags \<and>
   meta app < protect default_flags \<and>
   main (chip [0xC8, 0x40, 0x15] [0x20]) (default_flags\<lparr>sect := ''app'', disable := True\<rparr>)
       empty_files (\<lambda>d. 0) (Some [])
     = meta_write (chip [0xC8, 0x40, 0x15] [0x20]) (default_flags\<lparr>sect := ''app'', disable := True\<rparr>)
         app \<lparr>CRC = NOT 0, Size = NOT 0, Written = PresentEmpty,
              Image = TypeM4, Purpose = SubTypeApp, Reserved = 0xff\<rparr>
         \<lparr>port = [0x0B, 0, 0, 0, 0],
          log = [Tx (packet [0xAB] 1), Rx [0], Tx (packet [0x9F] 3), Rx [0xC8, 0x40, 0x15],
                 Tx poll, Rx [0], Tx (read_packet (0, 16)), Rx (replicate 16 0)]\<rparr> \<and>
   main (chip [0xC8, 0x40, 0x15] []) (default_flags\<lparr>sect := ''bootfpga'', wr := ''x.bin''\<rparr>)
       empty_files (\<lambda>d. 0) (Some [])
     = Some (Inl (Fatal (FatalWriteProtection 0x40000 0x20000)),
         [Tx (packet [0xAB] 1), Rx [0], Tx (packet [0x9F] 3), Rx [0xC8, 0x40, 0x15],
          Tx poll, Rx [0], Tx (read_packet (0, 16)), Rx (replicate 16 0)]) \<and>
   main (chip [0xC8, 0x40, 0x15] []) (default_flags\<lparr>sect := ''bootfpga'', disable := True\<rparr>)
       empty_files (\<lambda>d. 0) (Some [])
     = Some (Inl (Fatal FatalProtectedSection),
         [Tx (packet [0xAB] 1), Rx [0], Tx (packet [0x9F] 3), Rx [0xC8, 0x40, 0x15],
          Tx poll, Rx [0], Tx (read_packet (0, 16)), Rx (replicate 16 0)]) \<and>
   main (chip [0xC8, 0x40, 0x15] []) (default_flags\<lparr>addrArg := 0x1000, wr := ''x.bin''\<rparr>)
       empty_files (\<lambda>d. 0) (Some [])
     = Some (Inl (Fatal (FatalWriteProtection 0x40000 0x1000)),
         [Tx (packet [0xAB] 1), Rx [0], Tx (packet [0x9F] 3), Rx [0xC8, 0x40, 0x15],
          Tx poll, Rx [0], Tx (read_packet (0, 16)), Rx (replicate 16 0)])"
proof -
  let ?fl = "default_flags\<lparr>sect := ''app'', disable := True\<rparr>"
  let ?tr = "chip [0xC8, 0x40, 0x15] [0x20]"
  let ?qf = "\<lparr>port = [0x0B, 0, 0, 0, 0],
         log = [Tx (packet [0xAB] 1), Rx [0], Tx (packet [0x9F] 3), Rx [0xC8, 0x40, 0x15],
                Tx poll, Rx [0], Tx (read_packet (0, 16)), Rx (replicate 16 0)]\<rparr>"
  have f: "\<not> layout ?fl" "\<not> check_flag ?fl"
    by (simp_all add: default_flags_def)
  have n: "NewQF ?tr ?fl (Some []) = Some (Inr ?qf)"
    by (simp add: NewQF_def reset_chip_good default_flags_def)
  have s: "sect ?fl \<noteq> []" "secByName (sect ?fl) = Inr app" "disable ?fl"
    by (simp_all add: secByName_app)
  have b: "\<not> base app < protect ?fl" "meta app < protect default_flags"
    "image app = TypeM4" "purpose app = SubTypeApp"
    by (simp_all add: app_def default_flags_def)
  from protect_check [OF f n, of empty_files "\<lambda>d. 0", THEN conjunct1, rule_format, OF s]
  have "main ?tr ?fl empty_files (\<lambda>d. 0) (Some [])
      = meta_write ?tr ?fl app \<lparr>CRC = NOT 0, Size = NOT 0, Written = PresentEmpty,
              Image = TypeM4, Purpose = SubTypeApp, Reserved = 0xff\<rparr> ?qf"
    using b by simp
  with f n s b main_protected_examples show ?thesis
    by (simp add: default_flags_def)
qed

end
